theory Spec2Isabelle
  imports Complex_Main "HOL-Library.Word" "HOL-Library.Log_Nat"
begin

section \<open>One-dimensional spatial games on a ring\<close>

text \<open>
  The notebooks define three classes, \<open>HawkDove1D\<close>, \<open>StagHunt1D\<close> and
  \<open>PrisonersDilemma1D\<close>. Each owns two NumPy arrays of dtype \<open>uint8\<close>: \<open>A\<close>
  (strategies) and \<open>P = np.zeros_like(A)\<close> (payoffs), and the cursor \<open>next\<close>.
  The embedding keeps the arrays as lists of rows of 8-bit words, writes every Python
  exception as a value, and threads the position in NumPy's global random stream. The
  payoff parameters are Python integers, which are unbounded; the numbers computed from
  them are integers or 64-bit floats.
\<close>

subsection \<open>Python and NumPy primitives\<close>

type_synonym u8 = "8 word"
type_synonym grid = "u8 list list"

datatype py_error = IndexError | KeyError | ValueError | OverflowError

text \<open>
  An index \<open>i\<close> into an axis of length \<open>n\<close>: \<open>0 \<le> i < n\<close> is itself, \<open>-n \<le> i < 0\<close>
  counts from the end, anything else raises \<open>IndexError\<close>.
\<close>

definition py_index :: "nat \<Rightarrow> int \<Rightarrow> nat option" where
  "py_index n i =
     (if 0 \<le> i \<and> i < int n then Some (nat i)
      else if - int n \<le> i \<and> i < 0 then Some (nat (int n + i))
      else None)"

text \<open>\<open>g[i, j]\<close> read and \<open>g[i, j] = x\<close>, \<open>g[i] = xs\<close> written, on a two-dimensional array.\<close>

definition np_get :: "grid \<Rightarrow> int \<Rightarrow> int \<Rightarrow> py_error + u8" where
  "np_get g i j =
     (case py_index (length g) i of
        None \<Rightarrow> Inl IndexError
      | Some r \<Rightarrow>
          (case py_index (length (g ! r)) j of
             None \<Rightarrow> Inl IndexError
           | Some c \<Rightarrow> Inr (g ! r ! c)))"

definition np_set :: "grid \<Rightarrow> int \<Rightarrow> int \<Rightarrow> u8 \<Rightarrow> py_error + grid" where
  "np_set g i j x =
     (case py_index (length g) i of
        None \<Rightarrow> Inl IndexError
      | Some r \<Rightarrow>
          (case py_index (length (g ! r)) j of
             None \<Rightarrow> Inl IndexError
           | Some c \<Rightarrow> Inr (g[r := (g ! r)[c := x]])))"

definition np_set_row :: "grid \<Rightarrow> int \<Rightarrow> u8 list \<Rightarrow> py_error + grid" where
  "np_set_row g i xs =
     (case py_index (length g) i of
        None \<Rightarrow> Inl IndexError
      | Some r \<Rightarrow> if length xs = length (g ! r) then Inr (g[r := xs]) else Inl ValueError)"

text \<open>\<open>str(k)\<close> of an unsigned integer: its decimal digits.\<close>

definition digit :: "nat \<Rightarrow> char" where
  "digit d = ''0123456789'' ! d"

function str_nat :: "nat \<Rightarrow> string" where
  "str_nat n = (if n < 10 then [digit n] else str_nat (n div 10) @ [digit (n mod 10)])"
  by pat_completeness auto
termination
  by (relation "measure id") auto

declare str_nat.simps [simp del]

definition str :: "u8 \<Rightarrow> string" where
  "str k = str_nat (unat k)"

subsection \<open>Python numbers\<close>

text \<open>
  A number computed by the program is a Python integer, a finite float or an infinite
  float; it is kept by its value, an integer and a float of the same value being the
  same number. The floats of the program are quotients of integers by 2, integers
  converted to float, and sums of two of these: each is an integer multiple of \<open>1/2\<close>,
  of magnitude at least \<open>1/2\<close> when it is not zero, so that rounding to a float is
  rounding the number of halves to 53 significant bits.
\<close>

datatype py_number = Number real | PosInfinity | NegInfinity

text \<open>
  An integer rounded to 53 significant bits, to nearest and to even on a tie. An
  integer below \<open>2^53\<close> in magnitude is kept.
\<close>

definition round53 :: "int \<Rightarrow> int" where
  "round53 k =
     (let a = \<bar>k\<bar>; sh = nat (bitlen a - 53); q = a div 2 ^ sh; r = a mod 2 ^ sh;
          up = (2 ^ sh < 2 * r \<or> (2 * r = 2 ^ sh \<and> q mod 2 = 1))
      in sgn k * (if up then q + 1 else q) * 2 ^ sh)"

text \<open>
  The conversion of an integer operand of a float addition, and \<open>k / 2\<close> for an integer
  \<open>k\<close> (true division): the nearest float, and \<open>OverflowError\<close> when that is \<open>2^1024\<close> or
  more in magnitude.
\<close>

definition int_to_float :: "int \<Rightarrow> py_error + real" where
  "int_to_float k =
     (let m = round53 k in if 2 ^ 1024 \<le> \<bar>m\<bar> then Inl OverflowError else Inr (of_int m))"

definition int_truediv_2 :: "int \<Rightarrow> py_error + real" where
  "int_truediv_2 k =
     (let m = round53 k in if 2 ^ 1025 \<le> \<bar>m\<bar> then Inl OverflowError else Inr (of_int m / 2))"

text \<open>
  The sum of two finite floats that are multiples of \<open>1/2\<close>: the nearest float to the
  exact sum, an infinity when that is \<open>2^1024\<close> or more in magnitude. Float addition
  does not raise.
\<close>

definition float_add :: "real \<Rightarrow> real \<Rightarrow> py_number" where
  "float_add x y =
     (let m = round53 \<lfloor>2 * (x + y)\<rfloor> in
      if 2 ^ 1025 \<le> m then PosInfinity
      else if m \<le> - (2 ^ 1025) then NegInfinity
      else Number (of_int m / 2))"

text \<open>
  \<open>a + b\<close> where both operands are floats, where \<open>b\<close> is an integer, and where \<open>a\<close> is an
  integer. The operands are evaluated from left to right; then the integer operand is
  converted.
\<close>

definition float_plus_float :: "py_error + real \<Rightarrow> py_error + real \<Rightarrow> py_error + py_number" where
  "float_plus_float a b =
     (case a of Inl e \<Rightarrow> Inl e | Inr x \<Rightarrow>
        (case b of Inl e \<Rightarrow> Inl e | Inr y \<Rightarrow> Inr (float_add x y)))"

definition float_plus_int :: "py_error + real \<Rightarrow> int \<Rightarrow> py_error + py_number" where
  "float_plus_int a k =
     (case a of Inl e \<Rightarrow> Inl e | Inr x \<Rightarrow>
        (case int_to_float k of Inl e \<Rightarrow> Inl e | Inr y \<Rightarrow> Inr (float_add x y)))"

definition int_plus_float :: "int \<Rightarrow> py_error + real \<Rightarrow> py_error + py_number" where
  "int_plus_float k b =
     (case b of Inl e \<Rightarrow> Inl e | Inr y \<Rightarrow>
        (case int_to_float k of Inl e \<Rightarrow> Inl e | Inr x \<Rightarrow> Inr (float_add x y)))"

text \<open>
  A list of computations that may raise, evaluated in order: their results, or the first
  exception. A dict display \<open>{k1: v1, ...}\<close> evaluates its values in order; of two entries
  with the same key the later one stays.
\<close>

fun collect :: "(py_error + 'a) list \<Rightarrow> py_error + 'a list" where
  "collect [] = Inr []"
| "collect (m # ms) =
     (case m of
        Inl e \<Rightarrow> Inl e
      | Inr x \<Rightarrow> (case collect ms of Inl e \<Rightarrow> Inl e | Inr xs \<Rightarrow> Inr (x # xs)))"

definition dict :: "(string \<times> 'v) list \<Rightarrow> (string \<rightharpoonup> 'v)" where
  "dict es = map_of (rev es)"

definition dict_display :: "(string \<times> (py_error + 'v)) list \<Rightarrow> py_error + (string \<rightharpoonup> 'v)" where
  "dict_display es =
     (case collect (map snd es) of
        Inl e \<Rightarrow> Inl e
      | Inr vs \<Rightarrow> Inr (dict (zip (map fst es) vs)))"

text \<open>
  Storing a number into a \<open>uint8\<close> array. A value that truncates (towards zero) into
  \<open>0 .. 255\<close> is stored truncated. An infinite float raises \<open>OverflowError\<close>. For any other
  value the outcome depends on the NumPy version and on the C conversion of the
  platform: a byte is stored (the value wrapped) or an exception is raised
  (\<open>OverflowError\<close>, as for a value beyond the C \<open>long\<close> of the platform, or for any such
  value where NumPy refuses them all); it is the parameter \<open>oor\<close>, a function of the
  value, and every property below holds for each \<open>oor\<close>.
\<close>

definition to_uint8 :: "(real \<Rightarrow> py_error + u8) \<Rightarrow> py_number \<Rightarrow> py_error + u8" where
  "to_uint8 oor x =
     (case x of
        Number y \<Rightarrow>
          if - 1 < y \<and> y < 256 then Inr (word_of_int (if 0 \<le> y then \<lfloor>y\<rfloor> else \<lceil>y\<rceil>))
          else oor y
      | PosInfinity \<Rightarrow> Inl OverflowError
      | NegInfinity \<Rightarrow> Inl OverflowError)"

text \<open>
  \<open>g[i, j] = x\<close> for a Python number \<open>x\<close>: the indices are resolved, then \<open>x\<close> is
  converted and stored.
\<close>

definition np_assign :: "(real \<Rightarrow> py_error + u8) \<Rightarrow> grid \<Rightarrow> int \<Rightarrow> int \<Rightarrow> py_number \<Rightarrow> py_error + grid" where
  "np_assign oor g i j x =
     (case py_index (length g) i of
        None \<Rightarrow> Inl IndexError
      | Some r \<Rightarrow>
          (case py_index (length (g ! r)) j of
             None \<Rightarrow> Inl IndexError
           | Some c \<Rightarrow>
               (case to_uint8 oor x of
                  Inl e \<Rightarrow> Inl e
                | Inr u \<Rightarrow> Inr (g[r := (g ! r)[c := u]]))))"

text \<open>
  A statement that may raise, inside a loop over a state \<open>s\<close>: the exception leaves with
  the state as it is at that moment.
\<close>

definition attempt :: "py_error + 'a \<Rightarrow> 's \<Rightarrow> ('a \<Rightarrow> (py_error \<times> 's) + 't) \<Rightarrow> (py_error \<times> 's) + 't" where
  "attempt m s f = (case m of Inl e \<Rightarrow> Inl (e, s) | Inr x \<Rightarrow> f x)"

text \<open>\<open>for i in is: body\<close>, left at the first exception.\<close>

fun for_range :: "('s \<Rightarrow> nat \<Rightarrow> (py_error \<times> 's) + 's) \<Rightarrow> nat list \<Rightarrow> 's \<Rightarrow> (py_error \<times> 's) + 's" where
  "for_range body [] s = Inr s"
| "for_range body (i # is) s =
     (case body s i of Inl e \<Rightarrow> Inl e | Inr s' \<Rightarrow> for_range body is s')"

subsection \<open>The automaton\<close>

text \<open>
  The fields of the three classes are the same; only the shape of \<open>payoffs\<close> differs.
  The cursor \<open>next\<close> is \<open>next_row\<close> here.
\<close>

record 'p automaton =
  payoffs :: 'p
  rows :: nat
  cols :: nat
  A :: grid
  P :: grid
  next_row :: nat

text \<open>
  The state of a run: the object and the number of draws already taken from the global
  random stream. The stream itself is \<open>coin :: nat \<Rightarrow> bool\<close>: draw \<open>k\<close> of
  \<open>np.random.random(cols).round()\<close> is 1 when \<open>coin k\<close>, and draw \<open>k\<close> of
  \<open>np.random.choice([a, b])\<close> is \<open>b\<close> when \<open>coin k\<close> and \<open>a\<close> otherwise.
\<close>

type_synonym 'p world = "'p automaton \<times> nat"
type_synonym 'p outcome = "(py_error \<times> 'p world) + 'p world"

definition init :: "'p \<Rightarrow> nat \<Rightarrow> nat option \<Rightarrow> 'p automaton" where
  "init pay m copt =
     (let nc = (case copt of None \<Rightarrow> 2 * m + 1 | Some c \<Rightarrow> c) in
      \<lparr> payoffs = pay, rows = m, cols = nc,
        A = replicate m (replicate nc 0),
        P = replicate m (replicate nc 0),
        next_row = 0 \<rparr>)"

definition init_single :: "'p world \<Rightarrow> 'p outcome" where
  "init_single w =
     (case w of (s, n) \<Rightarrow>
        (case np_set (A s) 0 (int (cols s div 2)) 1 of
           Inl e \<Rightarrow> Inl (e, (s, n))
         | Inr Ag \<Rightarrow> Inr (s\<lparr>A := Ag, next_row := next_row s + 1\<rparr>, n)))"

definition init_random :: "(nat \<Rightarrow> bool) \<Rightarrow> 'p world \<Rightarrow> 'p outcome" where
  "init_random coin w =
     (case w of (s, n) \<Rightarrow>
        (let xs = map (\<lambda>k. if coin (n + k) then 1 else 0) [0..<cols s] in
         case np_set_row (A s) 0 xs of
           Inl e \<Rightarrow> Inl (e, (s, n + cols s))
         | Inr Ag \<Rightarrow> Inr (s\<lparr>A := Ag, next_row := next_row s + 1\<rparr>, n + cols s)))"


text \<open>
  \<open>loop\<close> calls \<open>self.step()\<close> for each \<open>i\<close> of \<open>range(self.rows - 1)\<close>; the step is
  the one of the object's class.
\<close>

definition loop :: "('p world \<Rightarrow> 'p outcome) \<Rightarrow> 'p world \<Rightarrow> 'p outcome" where
  "loop stepf w = for_range (\<lambda>w' i. stepf w') [0..<rows (fst w) - 1] w"

subsection \<open>\<open>HawkDove1D.step\<close>\<close>

text \<open>
  \<open>v, c = self.payoffs\<close>; \<open>/\<close> is Python's true division, so that the entries with a
  quotient are floats and building the table raises \<open>OverflowError\<close> when a quotient or a
  converted integer is too large for a float.
\<close>

definition HawkDove1D_table :: "int \<times> int \<Rightarrow> py_error + (string \<rightharpoonup> py_number)" where
  "HawkDove1D_table pay =
     (case pay of (v, c) \<Rightarrow>
        dict_display
          [(''111'', float_plus_float (int_truediv_2 (v - c)) (int_truediv_2 (v - c))),
           (''110'', float_plus_int (int_truediv_2 (v - c)) v),
           (''101'', Inr (Number (of_int (0 + 0)))),
           (''100'', int_plus_float 0 (int_truediv_2 v)),
           (''011'', int_plus_float v (int_truediv_2 (v - c))),
           (''010'', Inr (Number (of_int (v + v)))),
           (''001'', float_plus_int (int_truediv_2 v) 0),
           (''000'', float_plus_float (int_truediv_2 v) (int_truediv_2 v))])"

definition HawkDove1D_payoff_body ::
  "(real \<Rightarrow> py_error + u8) \<Rightarrow> (string \<rightharpoonup> py_number) \<Rightarrow> nat \<Rightarrow> int \<Rightarrow> grid \<Rightarrow> grid \<Rightarrow> nat \<Rightarrow> (py_error \<times> grid) + grid" where
  "HawkDove1D_payoff_body oor table nc row Ag Pg col =
     attempt (np_get Ag (row - 1) (int col - 1)) Pg (\<lambda>a.
     attempt (np_get Ag (row - 1) (int col)) Pg (\<lambda>b.
     attempt (np_get Ag (row - 1) (int ((col + 1) mod nc))) Pg (\<lambda>c.
       (case table (str a @ str b @ str c) of
          None \<Rightarrow> Inl (KeyError, Pg)
        | Some x \<Rightarrow> attempt (np_assign oor Pg (row - 1) (int col) x) Pg Inr))))"

definition HawkDove1D_update_body ::
  "(nat \<Rightarrow> bool) \<Rightarrow> nat \<Rightarrow> int \<Rightarrow> grid \<Rightarrow> grid \<times> nat \<Rightarrow> nat \<Rightarrow> (py_error \<times> grid \<times> nat) + grid \<times> nat" where
  "HawkDove1D_update_body coin nc row Pg st col =
     (case st of (Ag, n) \<Rightarrow>
      attempt (np_get Pg (row - 1) (int col)) st (\<lambda>pm.
      attempt (np_get Pg (row - 1) (int col - 1)) st (\<lambda>pl.
        if pm < pl then
          attempt (np_get Pg (row - 1) (int ((col + 1) mod nc))) st (\<lambda>pr.
            if pl < pr then
              attempt (np_get Ag (row - 1) (int ((col + 1) mod nc))) st (\<lambda>x.
              attempt (np_set Ag row (int col) x) st (\<lambda>Ag'. Inr (Ag', n)))
            else if pl > pr then
              attempt (np_get Ag (row - 1) (int col - 1)) st (\<lambda>x.
              attempt (np_set Ag row (int col) x) st (\<lambda>Ag'. Inr (Ag', n)))
            else
              attempt (np_get Ag (row - 1) (int col - 1)) st (\<lambda>a.
              attempt (np_get Ag (row - 1) (int ((col + 1) mod nc))) st (\<lambda>b.
              attempt (np_set Ag row (int col) (if coin n then b else a)) (Ag, n + 1)
                (\<lambda>Ag'. Inr (Ag', n + 1)))))
        else
          attempt (np_get Pg (row - 1) (int ((col + 1) mod nc))) st (\<lambda>pr.
            if pm < pr then
              attempt (np_get Ag (row - 1) (int ((col + 1) mod nc))) st (\<lambda>x.
              attempt (np_set Ag row (int col) x) st (\<lambda>Ag'. Inr (Ag', n)))
            else
              attempt (np_get Ag (row - 1) (int col)) st (\<lambda>x.
              attempt (np_set Ag row (int col) x) st (\<lambda>Ag'. Inr (Ag', n)))))))"

definition HawkDove1D_step :: "(real \<Rightarrow> py_error + u8) \<Rightarrow> (nat \<Rightarrow> bool) \<Rightarrow> (int \<times> int) world \<Rightarrow> (int \<times> int) outcome" where
  "HawkDove1D_step oor coin w =
     (case w of (s, n) \<Rightarrow>
      (let row = int (next_row s); nc = cols s in
       case HawkDove1D_table (payoffs s) of
         Inl e \<Rightarrow> Inl (e, (s, n))
       | Inr table \<Rightarrow>
           (case for_range (HawkDove1D_payoff_body oor table nc row (A s)) [0..<nc] (P s) of
              Inl (e, Pg) \<Rightarrow> Inl (e, (s\<lparr>P := Pg\<rparr>, n))
            | Inr Pg \<Rightarrow>
                (case for_range (HawkDove1D_update_body coin nc row Pg) [0..<nc] (A s, n) of
                   Inl (e, (Ag, n')) \<Rightarrow> Inl (e, (s\<lparr>A := Ag, P := Pg\<rparr>, n'))
                 | Inr (Ag, n') \<Rightarrow> Inr (s\<lparr>A := Ag, P := Pg, next_row := next_row s + 1\<rparr>, n')))))"


subsection \<open>\<open>StagHunt1D.step\<close>\<close>

text \<open>\<open>t, r, s = self.payoffs\<close>, then \<open>p = t\<close>; the entries are sums of integers.\<close>

definition StagHunt1D_table :: "int \<times> int \<times> int \<Rightarrow> (string \<rightharpoonup> py_number)" where
  "StagHunt1D_table pay =
     (case pay of (t, r, s) \<Rightarrow>
        (let p = t in
         dict
           [(''111'', Number (of_int (p + p))), (''110'', Number (of_int (p + t))),
            (''101'', Number (of_int (s + s))), (''100'', Number (of_int (s + r))),
            (''011'', Number (of_int (t + p))), (''010'', Number (of_int (t + t))),
            (''001'', Number (of_int (r + s))), (''000'', Number (of_int (r + r)))]))"

definition StagHunt1D_payoff_body ::
  "(real \<Rightarrow> py_error + u8) \<Rightarrow> (string \<rightharpoonup> py_number) \<Rightarrow> nat \<Rightarrow> int \<Rightarrow> grid \<Rightarrow> grid \<Rightarrow> nat \<Rightarrow> (py_error \<times> grid) + grid" where
  "StagHunt1D_payoff_body oor table nc row Ag Pg col =
     attempt (np_get Ag (row - 1) (int col - 1)) Pg (\<lambda>a.
     attempt (np_get Ag (row - 1) (int col)) Pg (\<lambda>b.
     attempt (np_get Ag (row - 1) (int ((col + 1) mod nc))) Pg (\<lambda>c.
       (case table (str a @ str b @ str c) of
          None \<Rightarrow> Inl (KeyError, Pg)
        | Some x \<Rightarrow> attempt (np_assign oor Pg (row - 1) (int col) x) Pg Inr))))"

definition StagHunt1D_update_body ::
  "(nat \<Rightarrow> bool) \<Rightarrow> nat \<Rightarrow> int \<Rightarrow> grid \<Rightarrow> grid \<times> nat \<Rightarrow> nat \<Rightarrow> (py_error \<times> grid \<times> nat) + grid \<times> nat" where
  "StagHunt1D_update_body coin nc row Pg st col =
     (case st of (Ag, n) \<Rightarrow>
      attempt (np_get Pg (row - 1) (int col)) st (\<lambda>pm.
      attempt (np_get Pg (row - 1) (int col - 1)) st (\<lambda>pl.
        if pm < pl then
          attempt (np_get Pg (row - 1) (int ((col + 1) mod nc))) st (\<lambda>pr.
            if pl < pr then
              attempt (np_get Ag (row - 1) (int ((col + 1) mod nc))) st (\<lambda>x.
              attempt (np_set Ag row (int col) x) st (\<lambda>Ag'. Inr (Ag', n)))
            else if pl > pr then
              attempt (np_get Ag (row - 1) (int col - 1)) st (\<lambda>x.
              attempt (np_set Ag row (int col) x) st (\<lambda>Ag'. Inr (Ag', n)))
            else
              attempt (np_get Ag (row - 1) (int col - 1)) st (\<lambda>a.
              attempt (np_get Ag (row - 1) (int ((col + 1) mod nc))) st (\<lambda>b.
              attempt (np_set Ag row (int col) (if coin n then b else a)) (Ag, n + 1)
                (\<lambda>Ag'. Inr (Ag', n + 1)))))
        else
          attempt (np_get Pg (row - 1) (int ((col + 1) mod nc))) st (\<lambda>pr.
            if pm < pr then
              attempt (np_get Ag (row - 1) (int ((col + 1) mod nc))) st (\<lambda>x.
              attempt (np_set Ag row (int col) x) st (\<lambda>Ag'. Inr (Ag', n)))
            else
              attempt (np_get Ag (row - 1) (int col)) st (\<lambda>x.
              attempt (np_set Ag row (int col) x) st (\<lambda>Ag'. Inr (Ag', n)))))))"

definition StagHunt1D_step :: "(real \<Rightarrow> py_error + u8) \<Rightarrow> (nat \<Rightarrow> bool) \<Rightarrow> (int \<times> int \<times> int) world \<Rightarrow> (int \<times> int \<times> int) outcome" where
  "StagHunt1D_step oor coin w =
     (case w of (s, n) \<Rightarrow>
      (let row = int (next_row s); nc = cols s; table = StagHunt1D_table (payoffs s) in
       case for_range (StagHunt1D_payoff_body oor table nc row (A s)) [0..<nc] (P s) of
         Inl (e, Pg) \<Rightarrow> Inl (e, (s\<lparr>P := Pg\<rparr>, n))
       | Inr Pg \<Rightarrow>
           (case for_range (StagHunt1D_update_body coin nc row Pg) [0..<nc] (A s, n) of
              Inl (e, (Ag, n')) \<Rightarrow> Inl (e, (s\<lparr>A := Ag, P := Pg\<rparr>, n'))
            | Inr (Ag, n') \<Rightarrow> Inr (s\<lparr>A := Ag, P := Pg, next_row := next_row s + 1\<rparr>, n'))))"

subsection \<open>\<open>PrisonersDilemma1D.step\<close>\<close>

text \<open>\<open>t, r, p, s = self.payoffs\<close>.\<close>

definition PrisonersDilemma1D_table :: "int \<times> int \<times> int \<times> int \<Rightarrow> (string \<rightharpoonup> py_number)" where
  "PrisonersDilemma1D_table pay =
     (case pay of (t, r, p, s) \<Rightarrow>
        dict
          [(''111'', Number (of_int (p + p))), (''110'', Number (of_int (p + t))),
           (''101'', Number (of_int (s + s))), (''100'', Number (of_int (s + r))),
           (''011'', Number (of_int (t + p))), (''010'', Number (of_int (t + t))),
           (''001'', Number (of_int (r + s))), (''000'', Number (of_int (r + r)))])"

definition PrisonersDilemma1D_payoff_body ::
  "(real \<Rightarrow> py_error + u8) \<Rightarrow> (string \<rightharpoonup> py_number) \<Rightarrow> nat \<Rightarrow> int \<Rightarrow> grid \<Rightarrow> grid \<Rightarrow> nat \<Rightarrow> (py_error \<times> grid) + grid" where
  "PrisonersDilemma1D_payoff_body oor table nc row Ag Pg col =
     attempt (np_get Ag (row - 1) (int col - 1)) Pg (\<lambda>a.
     attempt (np_get Ag (row - 1) (int col)) Pg (\<lambda>b.
     attempt (np_get Ag (row - 1) (int ((col + 1) mod nc))) Pg (\<lambda>c.
       (case table (str a @ str b @ str c) of
          None \<Rightarrow> Inl (KeyError, Pg)
        | Some x \<Rightarrow> attempt (np_assign oor Pg (row - 1) (int col) x) Pg Inr))))"

definition PrisonersDilemma1D_update_body ::
  "(nat \<Rightarrow> bool) \<Rightarrow> nat \<Rightarrow> int \<Rightarrow> grid \<Rightarrow> grid \<times> nat \<Rightarrow> nat \<Rightarrow> (py_error \<times> grid \<times> nat) + grid \<times> nat" where
  "PrisonersDilemma1D_update_body coin nc row Pg st col =
     (case st of (Ag, n) \<Rightarrow>
      attempt (np_get Pg (row - 1) (int col)) st (\<lambda>pm.
      attempt (np_get Pg (row - 1) (int col - 1)) st (\<lambda>pl.
        if pm < pl then
          attempt (np_get Pg (row - 1) (int ((col + 1) mod nc))) st (\<lambda>pr.
            if pl < pr then
              attempt (np_get Ag (row - 1) (int ((col + 1) mod nc))) st (\<lambda>x.
              attempt (np_set Ag row (int col) x) st (\<lambda>Ag'. Inr (Ag', n)))
            else if pl > pr then
              attempt (np_get Ag (row - 1) (int col - 1)) st (\<lambda>x.
              attempt (np_set Ag row (int col) x) st (\<lambda>Ag'. Inr (Ag', n)))
            else
              attempt (np_get Ag (row - 1) (int col - 1)) st (\<lambda>a.
              attempt (np_get Ag (row - 1) (int ((col + 1) mod nc))) st (\<lambda>b.
              attempt (np_set Ag row (int col) (if coin n then b else a)) (Ag, n + 1)
                (\<lambda>Ag'. Inr (Ag', n + 1)))))
        else
          attempt (np_get Pg (row - 1) (int ((col + 1) mod nc))) st (\<lambda>pr.
            if pm < pr then
              attempt (np_get Ag (row - 1) (int ((col + 1) mod nc))) st (\<lambda>x.
              attempt (np_set Ag row (int col) x) st (\<lambda>Ag'. Inr (Ag', n)))
            else
              attempt (np_get Ag (row - 1) (int col)) st (\<lambda>x.
              attempt (np_set Ag row (int col) x) st (\<lambda>Ag'. Inr (Ag', n)))))))"

definition PrisonersDilemma1D_step :: "(real \<Rightarrow> py_error + u8) \<Rightarrow> (nat \<Rightarrow> bool) \<Rightarrow> (int \<times> int \<times> int \<times> int) world \<Rightarrow> (int \<times> int \<times> int \<times> int) outcome" where
  "PrisonersDilemma1D_step oor coin w =
     (case w of (s, n) \<Rightarrow>
      (let row = int (next_row s); nc = cols s; table = PrisonersDilemma1D_table (payoffs s) in
       case for_range (PrisonersDilemma1D_payoff_body oor table nc row (A s)) [0..<nc] (P s) of
         Inl (e, Pg) \<Rightarrow> Inl (e, (s\<lparr>P := Pg\<rparr>, n))
       | Inr Pg \<Rightarrow>
           (case for_range (PrisonersDilemma1D_update_body coin nc row Pg) [0..<nc] (A s, n) of
              Inl (e, (Ag, n')) \<Rightarrow> Inl (e, (s\<lparr>A := Ag, P := Pg\<rparr>, n'))
            | Inr (Ag, n') \<Rightarrow> Inr (s\<lparr>A := Ag, P := Pg, next_row := next_row s + 1\<rparr>, n'))))"

subsection \<open>Vocabulary of the properties\<close>

text \<open>
  The arrays of an object keep the shape the constructor gave them, and the cells of \<open>A\<close>
  are 0 or 1.
\<close>

definition shaped :: "nat \<Rightarrow> nat \<Rightarrow> grid \<Rightarrow> bool" where
  "shaped m nc g \<longleftrightarrow> length g = m \<and> (\<forall>row \<in> set g. length row = nc)"

definition bits :: "u8 list \<Rightarrow> bool" where
  "bits xs \<longleftrightarrow> (\<forall>x \<in> set xs. x = 0 \<or> x = 1)"

definition binary :: "grid \<Rightarrow> bool" where
  "binary g \<longleftrightarrow> (\<forall>row \<in> set g. bits row)"

definition wf :: "'p automaton \<Rightarrow> bool" where
  "wf s \<longleftrightarrow> shaped (rows s) (cols s) (A s) \<and> shaped (rows s) (cols s) (P s) \<and> binary (A s)"

text \<open>A table that has an entry for each of the eight keys \<open>'000'\<close> .. \<open>'111'\<close>.\<close>

definition covers :: "(string \<rightharpoonup> 'v) \<Rightarrow> bool" where
  "covers table \<longleftrightarrow> (\<forall>a \<in> {0, 1}. \<forall>b \<in> {0, 1}. \<forall>c \<in> {0, 1}. str a @ str b @ str c \<in> dom table)"

text \<open>The neighbours of column \<open>c\<close> on a ring of \<open>nc\<close> columns.\<close>

definition left_of :: "nat \<Rightarrow> nat \<Rightarrow> nat" where
  "left_of nc c = (if c = 0 then nc - 1 else c - 1)"

definition right_of :: "nat \<Rightarrow> nat \<Rightarrow> nat" where
  "right_of nc c = (if c = nc - 1 then 0 else c + 1)"

text \<open>
  What one step stores, in closed form. \<open>payoff_of\<close> is the conversion of the table value
  of column \<open>c\<close> of a strategy row \<open>ar\<close>, a byte or an exception; \<open>payoff_row\<close> is the
  payoff row of \<open>ar\<close>, or the first exception of its columns; \<open>partial_row\<close> is the
  payoff row as the loop leaves it, over the row \<open>old\<close> it found: the bytes stored before
  the first exception, then the cells of \<open>old\<close>. \<open>update_row\<close> is the strategy row that
  follows from a payoff row \<open>pr\<close> and \<open>ar\<close>. \<open>tie_at\<close> is the condition under which the
  source reaches \<open>np.random.choice\<close>; the draw of column \<open>c\<close> is the one at position \<open>n\<close>
  plus the number of such columns before \<open>c\<close>.
\<close>

definition payoff_of :: "(string \<rightharpoonup> py_number) \<Rightarrow> (real \<Rightarrow> py_error + u8) \<Rightarrow> u8 list \<Rightarrow> nat \<Rightarrow> py_error + u8" where
  "payoff_of table oor ar c =
     to_uint8 oor (the (table (str (ar ! left_of (length ar) c) @ str (ar ! c) @ str (ar ! right_of (length ar) c))))"

definition payoff_row :: "(string \<rightharpoonup> py_number) \<Rightarrow> (real \<Rightarrow> py_error + u8) \<Rightarrow> u8 list \<Rightarrow> py_error + u8 list" where
  "payoff_row table oor ar = collect (map (payoff_of table oor ar) [0..<length ar])"

fun stored_prefix :: "(py_error + 'a) list \<Rightarrow> 'a list" where
  "stored_prefix [] = []"
| "stored_prefix (m # ms) = (case m of Inl e \<Rightarrow> [] | Inr x \<Rightarrow> x # stored_prefix ms)"

definition partial_row :: "(string \<rightharpoonup> py_number) \<Rightarrow> (real \<Rightarrow> py_error + u8) \<Rightarrow> u8 list \<Rightarrow> u8 list \<Rightarrow> u8 list" where
  "partial_row table oor ar old =
     (let xs = stored_prefix (map (payoff_of table oor ar) [0..<length ar])
      in xs @ drop (length xs) old)"

text \<open>A table and a conversion under which every entry of the eight keys can be stored.\<close>

definition storable :: "(real \<Rightarrow> py_error + u8) \<Rightarrow> (string \<rightharpoonup> py_number) \<Rightarrow> bool" where
  "storable oor table \<longleftrightarrow>
     (\<forall>a \<in> {0, 1}. \<forall>b \<in> {0, 1}. \<forall>c \<in> {0, 1}.
        \<exists>x u. table (str a @ str b @ str c) = Some x \<and> to_uint8 oor x = Inr u)"

definition tie_at :: "u8 list \<Rightarrow> nat \<Rightarrow> bool" where
  "tie_at pr c \<longleftrightarrow>
     pr ! c < pr ! left_of (length pr) c \<and> pr ! left_of (length pr) c = pr ! right_of (length pr) c"

definition draws_before :: "u8 list \<Rightarrow> nat \<Rightarrow> nat" where
  "draws_before pr c = length (filter (tie_at pr) [0..<c])"

definition pick :: "bool \<Rightarrow> u8 list \<Rightarrow> u8 list \<Rightarrow> nat \<Rightarrow> u8" where
  "pick b pr ar c =
     (let l = left_of (length pr) c; r = right_of (length pr) c in
      if pr ! c < pr ! l then
        (if pr ! l < pr ! r then ar ! r
         else if pr ! l > pr ! r then ar ! l
         else if b then ar ! r else ar ! l)
      else if pr ! c < pr ! r then ar ! r
      else ar ! c)"

definition imitate :: "(nat \<Rightarrow> bool) \<Rightarrow> nat \<Rightarrow> u8 list \<Rightarrow> u8 list \<Rightarrow> nat \<Rightarrow> u8" where
  "imitate coin n pr ar c = pick (coin (n + draws_before pr c)) pr ar c"

definition update_row :: "(nat \<Rightarrow> bool) \<Rightarrow> nat \<Rightarrow> u8 list \<Rightarrow> u8 list \<Rightarrow> u8 list" where
  "update_row coin n pr ar = map (imitate coin n pr ar) [0..<length pr]"

definition tie_free :: "u8 list \<Rightarrow> bool" where
  "tie_free pr \<longleftrightarrow> list_all (\<lambda>c. \<not> tie_at pr c) [0..<length pr]"

text \<open>
  The step with the table as a parameter: the two loops of \<open>HawkDove1D.step\<close>, which the
  other two classes repeat.
\<close>

definition engine :: "(string \<rightharpoonup> py_number) \<Rightarrow> (real \<Rightarrow> py_error + u8) \<Rightarrow> (nat \<Rightarrow> bool) \<Rightarrow> 'p world \<Rightarrow> 'p outcome" where
  "engine table oor coin w =
     (case w of (s, n) \<Rightarrow>
      (let row = int (next_row s); nc = cols s in
       case for_range (HawkDove1D_payoff_body oor table nc row (A s)) [0..<nc] (P s) of
         Inl (e, Pg) \<Rightarrow> Inl (e, (s\<lparr>P := Pg\<rparr>, n))
       | Inr Pg \<Rightarrow>
           (case for_range (HawkDove1D_update_body coin nc row Pg) [0..<nc] (A s, n) of
              Inl (e, (Ag, n')) \<Rightarrow> Inl (e, (s\<lparr>A := Ag, P := Pg\<rparr>, n'))
            | Inr (Ag, n') \<Rightarrow> Inr (s\<lparr>A := Ag, P := Pg, next_row := next_row s + 1\<rparr>, n'))))"

text \<open>An object without its \<open>payoffs\<close>, to compare objects of different classes.\<close>

definition erase :: "'p automaton \<Rightarrow> unit automaton" where
  "erase s = \<lparr>payoffs = (), rows = rows s, cols = cols s, A = A s, P = P s, next_row = next_row s\<rparr>"

definition erase_outcome :: "'p outcome \<Rightarrow> unit outcome" where
  "erase_outcome r =
     (case r of Inl (e, (s, n)) \<Rightarrow> Inl (e, (erase s, n)) | Inr (s, n) \<Rightarrow> Inr (erase s, n))"

text \<open>
  A session with one object: the calls made on it, in order. A call that raises leaves the
  object as it is at the raise, and the next call finds it so.
\<close>

datatype call = Init_single | Init_random | Step | Loop

definition after :: "'p outcome \<Rightarrow> 'p world" where
  "after r = (case r of Inl (e, w) \<Rightarrow> w | Inr w \<Rightarrow> w)"

definition perform :: "('p world \<Rightarrow> 'p outcome) \<Rightarrow> (nat \<Rightarrow> bool) \<Rightarrow> call \<Rightarrow> 'p world \<Rightarrow> 'p outcome" where
  "perform stepf coin c w =
     (case c of
        Init_single \<Rightarrow> init_single w
      | Init_random \<Rightarrow> init_random coin w
      | Step \<Rightarrow> stepf w
      | Loop \<Rightarrow> loop stepf w)"

definition run :: "('p world \<Rightarrow> 'p outcome) \<Rightarrow> (nat \<Rightarrow> bool) \<Rightarrow> call list \<Rightarrow> 'p world \<Rightarrow> 'p world" where
  "run stepf coin cs w = fold (\<lambda>c w'. after (perform stepf coin c w')) cs w"

definition keeps_binary :: "(py_error \<times> grid \<times> nat) + grid \<times> nat \<Rightarrow> bool" where
  "keeps_binary r = (case r of Inl (e, (Ag, n)) \<Rightarrow> binary Ag | Inr (Ag, n) \<Rightarrow> binary Ag)"

definition world_binary :: "'p outcome \<Rightarrow> bool" where
  "world_binary r = (case r of Inl (e, (s, n)) \<Rightarrow> binary (A s) | Inr (s, n) \<Rightarrow> binary (A s))"



text \<open>
  Two conversions of the values that \<open>uint8\<close> cannot hold: one that raises for each of
  them, one that wraps each of them; and two random streams.
\<close>

definition raising :: "real \<Rightarrow> py_error + u8" where
  "raising x = Inl OverflowError"


definition tails :: "nat \<Rightarrow> bool" where
  "tails k = False"

definition heads :: "nat \<Rightarrow> bool" where
  "heads k = True"

text \<open>
  The objects of the examples. \<open>seeded\<close> is \<open>HawkDove1D((2, 3), 3)\<close> after
  \<open>init_single()\<close>, the run of the notebook with three rows, and \<open>table_2_3\<close> is its
  table; \<open>stepped\<close> is \<open>seeded\<close> after one \<open>step()\<close>, and \<open>stepped_partly\<close> is \<open>stepped\<close>
  with the first three cells of payoff row 1 stored. \<open>seeded_other\<close> has the same row 0
  as \<open>seeded\<close> and differs elsewhere. \<open>seeded_huge\<close> is \<open>seeded\<close> with payoffs
  \<open>(2^1025, 0)\<close>. The last three have different payoffs and the same table.
\<close>

definition table_2_3 :: "string \<rightharpoonup> py_number" where
  "table_2_3 =
     dict [(''111'', Number (- 1)), (''110'', Number (3 / 2)), (''101'', Number 0),
           (''100'', Number 1), (''011'', Number (3 / 2)), (''010'', Number 4),
           (''001'', Number 1), (''000'', Number 2)]"

definition seeded :: "(int \<times> int) automaton" where
  "seeded = \<lparr> payoffs = (2, 3), rows = 3, cols = 7,
      A = [[0, 0, 0, 1, 0, 0, 0], [0, 0, 0, 0, 0, 0, 0], [0, 0, 0, 0, 0, 0, 0]],
      P = [[0, 0, 0, 0, 0, 0, 0], [0, 0, 0, 0, 0, 0, 0], [0, 0, 0, 0, 0, 0, 0]],
      next_row = 1 \<rparr>"

definition stepped :: "(int \<times> int) automaton" where
  "stepped = \<lparr> payoffs = (2, 3), rows = 3, cols = 7,
      A = [[0, 0, 0, 1, 0, 0, 0], [0, 0, 1, 1, 1, 0, 0], [0, 0, 0, 0, 0, 0, 0]],
      P = [[2, 2, 1, 4, 1, 2, 2], [0, 0, 0, 0, 0, 0, 0], [0, 0, 0, 0, 0, 0, 0]],
      next_row = 2 \<rparr>"

definition stepped_partly :: "(int \<times> int) automaton" where
  "stepped_partly = \<lparr> payoffs = (2, 3), rows = 3, cols = 7,
      A = [[0, 0, 0, 1, 0, 0, 0], [0, 0, 1, 1, 1, 0, 0], [0, 0, 0, 0, 0, 0, 0]],
      P = [[2, 2, 1, 4, 1, 2, 2], [2, 1, 1, 0, 0, 0, 0], [0, 0, 0, 0, 0, 0, 0]],
      next_row = 2 \<rparr>"



definition hawk_dove_seeded :: "(int \<times> int) automaton" where
  "hawk_dove_seeded = seeded\<lparr>payoffs := (2, - 2)\<rparr>"

definition stag_hunt_seeded :: "(int \<times> int \<times> int) automaton" where
  "stag_hunt_seeded = \<lparr> payoffs = (2, 1, 0), rows = 3, cols = 7,
      A = [[0, 0, 0, 1, 0, 0, 0], [0, 0, 0, 0, 0, 0, 0], [0, 0, 0, 0, 0, 0, 0]],
      P = [[0, 0, 0, 0, 0, 0, 0], [0, 0, 0, 0, 0, 0, 0], [0, 0, 0, 0, 0, 0, 0]],
      next_row = 1 \<rparr>"

definition prisoners_seeded :: "(int \<times> int \<times> int \<times> int) automaton" where
  "prisoners_seeded = \<lparr> payoffs = (2, 1, 2, 0), rows = 3, cols = 7,
      A = [[0, 0, 0, 1, 0, 0, 0], [0, 0, 0, 0, 0, 0, 0], [0, 0, 0, 0, 0, 0, 0]],
      P = [[0, 0, 0, 0, 0, 0, 0], [0, 0, 0, 0, 0, 0, 0], [0, 0, 0, 0, 0, 0, 0]],
      next_row = 1 \<rparr>"

section \<open>Properties\<close>

subsection \<open>Numbers and tables\<close>

lemma str_0: "str 0 = ''0''"
  by (simp add: str_def str_nat.simps digit_def)

lemma str_1: "str 1 = ''1''"
  by (simp add: str_def str_nat.simps digit_def)

lemma round53_small:
  assumes "\<bar>k\<bar> < 2 ^ 53"
  shows "round53 k = k"
proof -
  have "bitlen \<bar>k\<bar> \<le> 53"
    using assms by (simp add: bitlen_le_iff_power)
  then have "nat (bitlen \<bar>k\<bar> - 53) = 0" by simp
  then show ?thesis
    by (simp add: round53_def Let_def mult_sgn_abs)
qed


lemma below_float_range:
  assumes "\<bar>m\<bar> < (2::int) ^ 53"
  shows "\<not> 2 ^ 1025 \<le> m" "\<not> m \<le> - (2 ^ 1025)" "\<not> 2 ^ 1025 \<le> \<bar>m\<bar>" "\<not> 2 ^ 1024 \<le> \<bar>m\<bar>"
proof -
  have "(2::int) ^ 53 \<le> 2 ^ 1024" "(2::int) ^ 53 \<le> 2 ^ 1025"
    by (rule power_increasing; simp)+
  then show "\<not> 2 ^ 1025 \<le> m" "\<not> m \<le> - (2 ^ 1025)" "\<not> 2 ^ 1025 \<le> \<bar>m\<bar>" "\<not> 2 ^ 1024 \<le> \<bar>m\<bar>"
    using assms by linarith+
qed

lemma int_to_float_small: "\<bar>k\<bar> < 2 ^ 53 \<Longrightarrow> int_to_float k = Inr (of_int k)"
  unfolding int_to_float_def Let_def by (simp only: round53_small below_float_range if_False)

lemma int_truediv_2_small: "\<bar>k\<bar> < 2 ^ 53 \<Longrightarrow> int_truediv_2 k = Inr (of_int k / 2)"
  unfolding int_truediv_2_def Let_def by (simp only: round53_small below_float_range if_False)

lemma float_add_small:
  assumes "2 * (x + y) = of_int m" "\<bar>m\<bar> < 2 ^ 53"
  shows "float_add x y = Number (x + y)"
proof -
  have f: "\<lfloor>2 * (x + y)\<rfloor> = m" using assms(1) by simp
  have v: "of_int m / 2 = x + y" using assms(1) by simp
  show ?thesis
    unfolding float_add_def f round53_small[OF assms(2)] Let_def v
    by (simp only: below_float_range[OF assms(2)] if_False)
qed

lemma float_add_commute: "float_add x y = float_add y x"
  by (simp add: float_add_def add.commute)

lemma HawkDove1D_table_2_3: "HawkDove1D_table (2, 3) = Inr table_2_3"
proof -
  have h: "int_truediv_2 (2 - 3) = Inr (- 1 / 2)" "int_truediv_2 2 = Inr 1"
    "int_to_float 2 = Inr 2" "int_to_float 0 = Inr 0"
    by (simp_all add: int_truediv_2_small int_to_float_small)
  have a: "float_add (- 1 / 2) (- 1 / 2) = Number (- 1)" "float_add (- 1 / 2) 2 = Number (3 / 2)"
    "float_add 0 1 = Number 1" "float_add 2 (- 1 / 2) = Number (3 / 2)"
    "float_add 1 0 = Number 1" "float_add 1 1 = Number 2"
    using float_add_small[of "- 1 / 2" "- 1 / 2" "- 2"] float_add_small[of "- 1 / 2" 2 3]
      float_add_small[of 0 1 2] float_add_small[of 2 "- 1 / 2" 3]
      float_add_small[of 1 0 2] float_add_small[of 1 1 4]
    by simp_all
  show ?thesis
    unfolding HawkDove1D_table_def prod.case float_plus_float_def float_plus_int_def
      int_plus_float_def h sum.case a
    by (simp add: dict_display_def table_2_3_def)
qed





lemma collect_Inr_D: "collect ms = Inr xs \<Longrightarrow> ms = map Inr xs"
proof (induction ms arbitrary: xs)
  case Nil
  then show ?case by simp
next
  case (Cons m ms)
  from Cons.prems obtain x ys where m: "m = Inr x" and c: "collect ms = Inr ys" and xs: "xs = x # ys"
    by (auto split: sum.splits)
  show ?case
    using Cons.IH[OF c] m xs by simp
qed

lemma HawkDove1D_table_Inr:
  assumes "HawkDove1D_table (v, c) = Inr T"
  shows "\<exists>h g f. int_truediv_2 (v - c) = Inr h \<and> int_truediv_2 v = Inr g \<and> int_to_float v = Inr f \<and>
      T = dict [(''111'', float_add h h), (''110'', float_add h f), (''101'', Number 0),
                (''100'', float_add 0 g), (''011'', float_add f h), (''010'', Number (of_int (v + v))),
                (''001'', float_add g 0), (''000'', float_add g g)]"
proof -
  have z: "int_to_float 0 = Inr 0"
    using int_to_float_small[of 0] by simp
  define es where "es = [float_plus_float (int_truediv_2 (v - c)) (int_truediv_2 (v - c)),
           float_plus_int (int_truediv_2 (v - c)) v,
           Inr (Number (of_int (0 + 0))),
           int_plus_float 0 (int_truediv_2 v),
           int_plus_float v (int_truediv_2 (v - c)),
           Inr (Number (of_int (v + v))),
           float_plus_int (int_truediv_2 v) 0,
           float_plus_float (int_truediv_2 v) (int_truediv_2 v)]"
  have t: "HawkDove1D_table (v, c) =
      (case collect es of Inl e \<Rightarrow> Inl e
       | Inr vs \<Rightarrow> Inr (dict (zip [''111'', ''110'', ''101'', ''100'', ''011'', ''010'', ''001'', ''000''] vs)))"
    unfolding HawkDove1D_table_def prod.case dict_display_def es_def list.map snd_conv fst_conv
    by (rule refl)
  from assms obtain vs where vs: "collect es = Inr vs"
    and T: "T = dict (zip [''111'', ''110'', ''101'', ''100'', ''011'', ''010'', ''001'', ''000''] vs)"
    unfolding t by (cases "collect es") simp_all
  have m: "es = map Inr vs" by (rule collect_Inr_D[OF vs])
  obtain h where h: "int_truediv_2 (v - c) = Inr h"
    using m unfolding es_def by (cases "int_truediv_2 (v - c)") (auto simp: float_plus_float_def)
  obtain g where g: "int_truediv_2 v = Inr g"
    using m unfolding es_def by (cases "int_truediv_2 v") (auto simp: float_plus_float_def)
  obtain f where f: "int_to_float v = Inr f"
    using m unfolding es_def h by (cases "int_to_float v") (auto simp: float_plus_int_def)
  have "es = map Inr [float_add h h, float_add h f, Number 0, float_add 0 g, float_add f h,
      Number (of_int (v + v)), float_add g 0, float_add g g]"
    unfolding es_def h g float_plus_float_def float_plus_int_def int_plus_float_def f z sum.case
    by simp
  then have "vs = [float_add h h, float_add h f, Number 0, float_add 0 g, float_add f h,
      Number (of_int (v + v)), float_add g 0, float_add g g]"
    unfolding m by (simp only: inj_map_eq_map[OF inj_Inr])
  then show ?thesis
    using h g f T by simp
qed

lemma HawkDove1D_table_covers: "HawkDove1D_table pay = Inr T \<Longrightarrow> covers T"
  using HawkDove1D_table_Inr[of "fst pay" "snd pay" T]
  by (auto simp: covers_def dict_def str_0 str_1)

lemma StagHunt1D_table_covers: "covers (StagHunt1D_table pay)"
  by (cases pay) (simp add: covers_def StagHunt1D_table_def dict_def str_0 str_1 dom_map_of_conv_image_fst)

lemma PrisonersDilemma1D_table_covers: "covers (PrisonersDilemma1D_table pay)"
  by (cases pay) (simp add: covers_def PrisonersDilemma1D_table_def dict_def str_0 str_1 dom_map_of_conv_image_fst)

subsection \<open>The three steps are one engine\<close>

lemma HawkDove1D_step_engine:
  "HawkDove1D_step oor coin w =
     (case HawkDove1D_table (payoffs (fst w)) of
        Inl e \<Rightarrow> Inl (e, w)
      | Inr table \<Rightarrow> engine table oor coin w)"
  by (cases w) (simp add: HawkDove1D_step_def engine_def split: sum.splits)

lemma StagHunt1D_payoff_body_eq: "StagHunt1D_payoff_body = HawkDove1D_payoff_body"
  by (intro ext) (simp add: StagHunt1D_payoff_body_def HawkDove1D_payoff_body_def)

lemma StagHunt1D_update_body_eq: "StagHunt1D_update_body = HawkDove1D_update_body"
  by (intro ext) (simp add: StagHunt1D_update_body_def HawkDove1D_update_body_def)

lemma PrisonersDilemma1D_payoff_body_eq: "PrisonersDilemma1D_payoff_body = HawkDove1D_payoff_body"
  by (intro ext) (simp add: PrisonersDilemma1D_payoff_body_def HawkDove1D_payoff_body_def)

lemma PrisonersDilemma1D_update_body_eq: "PrisonersDilemma1D_update_body = HawkDove1D_update_body"
  by (intro ext) (simp add: PrisonersDilemma1D_update_body_def HawkDove1D_update_body_def)

lemma StagHunt1D_step_engine:
  "StagHunt1D_step oor coin w = engine (StagHunt1D_table (payoffs (fst w))) oor coin w"
  unfolding StagHunt1D_step_def engine_def StagHunt1D_payoff_body_eq StagHunt1D_update_body_eq
  by (cases w) simp

lemma PrisonersDilemma1D_step_engine:
  "PrisonersDilemma1D_step oor coin w = engine (PrisonersDilemma1D_table (payoffs (fst w))) oor coin w"
  unfolding PrisonersDilemma1D_step_def engine_def PrisonersDilemma1D_payoff_body_eq
    PrisonersDilemma1D_update_body_eq
  by (cases w) simp

subsection \<open>Loops with an invariant\<close>

lemma for_range_upt_inv:
  assumes "Inv j s" and "j \<le> m"
    and "\<And>k t. j \<le> k \<Longrightarrow> k < m \<Longrightarrow> Inv k t \<Longrightarrow> \<exists>t'. body t k = Inr t' \<and> Inv (Suc k) t'"
  shows "\<exists>t'. for_range body [j..<m] s = Inr t' \<and> Inv m t'"
  using assms
proof (induction "m - j" arbitrary: j s)
  case 0
  then show ?case by simp
next
  case (Suc d)
  then have lt: "j < m" by simp
  from Suc.prems(3)[OF le_refl lt Suc.prems(1)]
  obtain t where t: "body s j = Inr t" "Inv (Suc j) t" by blast
  have "\<exists>t'. for_range body [Suc j..<m] t = Inr t' \<and> Inv m t'"
  proof (rule Suc.hyps(1))
    show "d = m - Suc j" using Suc.hyps(2) by simp
    show "Inv (Suc j) t" by (rule t)
    show "Suc j \<le> m" using lt by simp
    show "\<And>k t. Suc j \<le> k \<Longrightarrow> k < m \<Longrightarrow> Inv k t \<Longrightarrow> \<exists>t'. body t k = Inr t' \<and> Inv (Suc k) t'"
      using Suc.prems(3) by simp
  qed
  then show ?case using lt t by (simp add: upt_conv_Cons)
qed

lemma for_range_upt_fun:
  assumes "\<And>k. k < m \<Longrightarrow> body (F k) k = Inr (F (Suc k))"
  shows "for_range body [0..<m] (F 0) = Inr (F m)"
proof -
  have "\<exists>t'. for_range body [0..<m] (F 0) = Inr t' \<and> t' = F m"
    by (rule for_range_upt_inv[where Inv = "\<lambda>k t. t = F k"]) (simp_all add: assms)
  then show ?thesis by simp
qed

lemma for_range_snoc:
  "for_range body (ks @ [k]) s = (case for_range body ks s of Inl e \<Rightarrow> Inl e | Inr s' \<Rightarrow> body s' k)"
  by (induction ks arbitrary: s) (simp_all split: sum.splits)

lemma collect_snoc:
  "collect (ms @ [m]) =
     (case collect ms of
        Inl e \<Rightarrow> Inl e
      | Inr xs \<Rightarrow> (case m of Inl e \<Rightarrow> Inl e | Inr x \<Rightarrow> Inr (xs @ [x])))"
  by (induction ms) (simp_all split: sum.splits)

lemma stored_prefix_snoc:
  "stored_prefix (ms @ [m]) =
     (case collect ms of
        Inl e \<Rightarrow> stored_prefix ms
      | Inr xs \<Rightarrow> (case m of Inl e \<Rightarrow> xs | Inr x \<Rightarrow> xs @ [x]))"
  by (induction ms) (simp_all split: sum.splits)

lemma collect_length: "collect ms = Inr xs \<Longrightarrow> length xs = length ms"
  by (drule collect_Inr_D) simp

lemma collect_nth: "collect ms = Inr xs \<Longrightarrow> i < length ms \<Longrightarrow> ms ! i = Inr (xs ! i)"
  by (drule collect_Inr_D) simp

lemma stored_prefix_map_Inr: "stored_prefix (map Inr xs) = xs"
  by (induction xs) simp_all

lemma collect_stored_prefix: "collect ms = Inr xs \<Longrightarrow> stored_prefix ms = xs"
  by (drule collect_Inr_D) (simp add: stored_prefix_map_Inr)

lemma length_stored_prefix: "length (stored_prefix ms) \<le> length ms"
  by (induction ms) (simp_all split: sum.splits)

subsection \<open>Indexing\<close>

lemma left_of_less: "c < nc \<Longrightarrow> left_of nc c < nc"
  by (auto simp: left_of_def)

lemma right_of_less: "c < nc \<Longrightarrow> right_of nc c < nc"
  by (auto simp: right_of_def)

lemma right_of_mod: "c < nc \<Longrightarrow> (c + 1) mod nc = right_of nc c"
  by (auto simp: right_of_def mod_Suc)

lemma py_index_nat: "j < n \<Longrightarrow> py_index n (int j) = Some j"
  by (simp add: py_index_def)

lemma py_index_pred: "j < n \<Longrightarrow> py_index n (int j - 1) = Some (left_of n j)"
  by (auto simp: py_index_def left_of_def nat_diff_distrib)

lemma np_get_at:
  "ri = int i \<Longrightarrow> i < length g \<Longrightarrow> j < length (g ! i) \<Longrightarrow> np_get g ri (int j) = Inr (g ! i ! j)"
  by (simp add: np_get_def py_index_nat)

lemma np_get_left:
  "ri = int i \<Longrightarrow> i < length g \<Longrightarrow> j < length (g ! i) \<Longrightarrow>
   np_get g ri (int j - 1) = Inr (g ! i ! left_of (length (g ! i)) j)"
  by (simp add: np_get_def py_index_nat py_index_pred)

lemma np_get_right:
  assumes "ri = int i" "i < length g" "j < length (g ! i)" "length (g ! i) = nc"
  shows "np_get g ri (int ((j + 1) mod nc)) = Inr (g ! i ! right_of nc j)"
proof -
  have m: "(j + 1) mod nc = right_of nc j"
    using assms(3,4) by (simp only: right_of_mod)
  have "right_of nc j < length (g ! i)"
    using assms(3,4) right_of_less by simp
  from np_get_at[OF assms(1,2) this] show ?thesis
    by (simp only: m)
qed

lemma np_set_at:
  "ri = int i \<Longrightarrow> i < length g \<Longrightarrow> j < length (g ! i) \<Longrightarrow>
   np_set g ri (int j) x = Inr (g[i := (g ! i)[j := x]])"
  by (simp add: np_set_def py_index_nat)

lemma prefix_update:
  "length xs = k \<Longrightarrow> k < length ys \<Longrightarrow> (xs @ drop k ys)[k := x] = (xs @ [x]) @ drop (Suc k) ys"
  by (simp add: list_update_append Cons_nth_drop_Suc[symmetric])

lemma covers_lookup:
  assumes "covers table" "a = 0 \<or> a = 1" "b = 0 \<or> b = 1" "c = 0 \<or> c = 1"
  shows "\<exists>x. table (str a @ str b @ str c) = Some x"
  using assms unfolding covers_def by blast

lemma np_assign_at:
  "ri = int i \<Longrightarrow> i < length g \<Longrightarrow> j < length (g ! i) \<Longrightarrow>
   np_assign oor g ri (int j) x =
     (case to_uint8 oor x of Inl e \<Rightarrow> Inl e | Inr u \<Rightarrow> Inr (g[i := (g ! i)[j := u]]))"
  by (simp add: np_assign_def py_index_nat)

subsection \<open>The payoff loop\<close>

lemma payoff_body_step:
  assumes q: "q < length Ag" "length (Ag ! q) = nc" "bits (Ag ! q)"
    and t: "covers table"
    and p: "q < length Pg" "length (Pg ! q) = nc"
    and k: "k < nc" "length xs = k"
  shows "HawkDove1D_payoff_body oor table nc (int (Suc q)) Ag (Pg[q := xs @ drop k (Pg ! q)]) k =
         (case payoff_of table oor (Ag ! q) k of
            Inl e \<Rightarrow> Inl (e, Pg[q := xs @ drop k (Pg ! q)])
          | Inr u \<Rightarrow> Inr (Pg[q := (xs @ [u]) @ drop (Suc k) (Pg ! q)]))"
proof -
  let ?ar = "Ag ! q"
  let ?Pk = "Pg[q := xs @ drop k (Pg ! q)]"
  have row: "int (Suc q) - 1 = int q" by simp
  have rq: "int q = int q" by simp
  have a: "np_get Ag (int q) (int k - 1) = Inr (?ar ! left_of nc k)"
    using np_get_left[OF rq q(1), of k] q(2) k(1) by simp
  have b: "np_get Ag (int q) (int k) = Inr (?ar ! k)"
    using np_get_at[OF rq q(1), of k] q(2) k(1) by simp
  have c: "np_get Ag (int q) (int ((k + 1) mod nc)) = Inr (?ar ! right_of nc k)"
    using np_get_right[OF rq q(1) _ q(2), of k] q(2) k(1) by simp
  have mem: "\<And>i. i < nc \<Longrightarrow> ?ar ! i = 0 \<or> ?ar ! i = 1"
    using q(2,3) by (auto simp: bits_def)
  obtain x where x: "table (str (?ar ! left_of nc k) @ str (?ar ! k) @ str (?ar ! right_of nc k)) = Some x"
    using covers_lookup[OF t mem mem mem, of "left_of nc k" k "right_of nc k"]
      left_of_less[OF k(1)] right_of_less[OF k(1)] k(1) by blast
  have v: "payoff_of table oor ?ar k = to_uint8 oor x"
    by (simp add: payoff_of_def q(2) x)
  have len: "k < length (?Pk ! q)" using p k by simp
  have qk: "q < length ?Pk" using p(1) by simp
  have u: "?Pk[q := (?Pk ! q)[k := u]] = Pg[q := (xs @ [u]) @ drop (Suc k) (Pg ! q)]" for u
    using p k prefix_update[of xs k "Pg ! q" u] by simp
  have s: "np_assign oor ?Pk (int q) (int k) x =
      (case to_uint8 oor x of Inl e \<Rightarrow> Inl e
       | Inr u \<Rightarrow> Inr (Pg[q := (xs @ [u]) @ drop (Suc k) (Pg ! q)]))"
    unfolding np_assign_at[OF rq qk len] u ..
  show ?thesis
    unfolding HawkDove1D_payoff_body_def row a b c attempt_def sum.case x option.case s v
    by (cases "to_uint8 oor x") simp_all
qed

lemma payoff_loop_upto:
  assumes q: "q < length Ag" "length (Ag ! q) = nc" "bits (Ag ! q)"
    and t: "covers table"
    and p: "q < length Pg" "length (Pg ! q) = nc"
    and k: "k \<le> nc"
  shows "for_range (HawkDove1D_payoff_body oor table nc (int (Suc q)) Ag) [0..<k] Pg =
         (case collect (map (payoff_of table oor (Ag ! q)) [0..<k]) of
            Inl e \<Rightarrow> Inl (e, Pg[q := stored_prefix (map (payoff_of table oor (Ag ! q)) [0..<k]) @
                  drop (length (stored_prefix (map (payoff_of table oor (Ag ! q)) [0..<k]))) (Pg ! q)])
          | Inr xs \<Rightarrow> Inr (Pg[q := xs @ drop k (Pg ! q)]))"
  using k
proof (induction k)
  case 0
  then show ?case by simp
next
  case (Suc k)
  let ?f = "payoff_of table oor (Ag ! q)"
  let ?body = "HawkDove1D_payoff_body oor table nc (int (Suc q)) Ag"
  have k: "k < nc" "k \<le> nc" using Suc.prems by simp_all
  note IH = Suc.IH[OF k(2)]
  have up: "[0..<Suc k] = [0..<k] @ [k]" by simp
  show ?case
  proof (cases "collect (map ?f [0..<k])")
    case (Inl e)
    show ?thesis
      unfolding up for_range_snoc map_append list.map collect_snoc stored_prefix_snoc IH Inl sum.case
      by (rule refl)
  next
    case (Inr xs)
    have l: "length xs = k"
      using collect_length[OF Inr] by simp
    show ?thesis
      unfolding up for_range_snoc map_append list.map collect_snoc stored_prefix_snoc IH Inr sum.case
        payoff_body_step[OF q t p k(1) l]
      by (cases "?f k") (simp_all add: l)
  qed
qed

lemma payoff_loop:
  assumes q: "q < length Ag" "length (Ag ! q) = nc" "bits (Ag ! q)"
    and t: "covers table"
    and p: "q < length Pg" "length (Pg ! q) = nc"
  shows "for_range (HawkDove1D_payoff_body oor table nc (int (Suc q)) Ag) [0..<nc] Pg =
         (case payoff_row table oor (Ag ! q) of
            Inl e \<Rightarrow> Inl (e, Pg[q := partial_row table oor (Ag ! q) (Pg ! q)])
          | Inr pr \<Rightarrow> Inr (Pg[q := pr]))"
  unfolding payoff_loop_upto[OF q t p le_refl] payoff_row_def partial_row_def Let_def q(2)
  using p(2) by (simp split: sum.splits)

lemma length_payoff_row: "payoff_row table oor ar = Inr pr \<Longrightarrow> length pr = length ar"
  unfolding payoff_row_def by (drule collect_length) simp

lemma payoff_row_nth:
  "payoff_row table oor ar = Inr pr \<Longrightarrow> c < length ar \<Longrightarrow> payoff_of table oor ar c = Inr (pr ! c)"
  unfolding payoff_row_def by (drule collect_nth[where i = c]) simp_all

lemma payoff_row_partial:
  "payoff_row table oor ar = Inr pr \<Longrightarrow> length old = length ar \<Longrightarrow> partial_row table oor ar old = pr"
  unfolding payoff_row_def partial_row_def Let_def
  by (frule collect_length, drule collect_stored_prefix) simp

lemma length_partial_row: "length old = length ar \<Longrightarrow> length (partial_row table oor ar old) = length ar"
  unfolding partial_row_def Let_def
  using length_stored_prefix[of "map (payoff_of table oor ar) [0..<length ar]"] by simp


subsection \<open>The update loop\<close>

lemma update_body_step:
  assumes rw: "row - 1 = int q" "row = int (Suc q)"
    and r: "Suc q < length Ag" "length (Ag ! q) = nc" "length (Ag ! Suc q) = nc"
    and p: "q < length Pg" "length (Pg ! q) = nc"
    and k: "k < nc" "length xs = k"
  shows "HawkDove1D_update_body coin nc row Pg (Ag[Suc q := xs @ drop k (Ag ! Suc q)], n) k =
         Inr (Ag[Suc q := (xs @ [pick (coin n) (Pg ! q) (Ag ! q) k]) @ drop (Suc k) (Ag ! Suc q)],
              if tie_at (Pg ! q) k then n + 1 else n)"
proof -
  let ?pr = "Pg ! q" and ?ar = "Ag ! q"
  let ?Ak = "Ag[Suc q := xs @ drop k (Ag ! Suc q)]"
  have rq: "int q = int q" by simp
  have q: "q < length Ag" using r(1) by simp
  have pm: "np_get Pg (int q) (int k) = Inr (?pr ! k)"
    using np_get_at[OF rq p(1), of k] p(2) k(1) by simp
  have pl: "np_get Pg (int q) (int k - 1) = Inr (?pr ! left_of nc k)"
    using np_get_left[OF rq p(1), of k] p(2) k(1) by simp
  have pr: "np_get Pg (int q) (int ((k + 1) mod nc)) = Inr (?pr ! right_of nc k)"
    using np_get_right[OF rq p(1) _ p(2), of k] p(2) k(1) by simp
  have Akq: "?Ak ! q = ?ar" by simp
  have qk: "q < length ?Ak" using q by simp
  have am: "np_get ?Ak (int q) (int k) = Inr (?ar ! k)"
    using np_get_at[OF rq qk, of k] r(2) k(1) by (simp only: Akq)
  have al: "np_get ?Ak (int q) (int k - 1) = Inr (?ar ! left_of nc k)"
    using np_get_left[OF rq qk, of k] r(2) k(1) by (simp only: Akq)
  have ar: "np_get ?Ak (int q) (int ((k + 1) mod nc)) = Inr (?ar ! right_of nc k)"
    using np_get_right[OF rq qk, of k nc] r(2) k(1) by (simp only: Akq)
  have rk: "Suc q < length ?Ak" using r(1) by simp
  have len: "k < length (?Ak ! Suc q)" using r k by simp
  have st: "np_set ?Ak row (int k) v =
      Inr (Ag[Suc q := (xs @ [v]) @ drop (Suc k) (Ag ! Suc q)])" for v
  proof -
    have "np_set ?Ak row (int k) v = Inr (?Ak[Suc q := (?Ak ! Suc q)[k := v]])"
      by (rule np_set_at[OF rw(2) rk len])
    also have "?Ak[Suc q := (?Ak ! Suc q)[k := v]] = Ag[Suc q := (xs @ [v]) @ drop (Suc k) (Ag ! Suc q)]"
      using r k prefix_update[of xs k "Ag ! Suc q" v] by simp
    finally show ?thesis .
  qed
  show ?thesis
    unfolding HawkDove1D_update_body_def rw(1) prod.case pm pl pr am al ar st attempt_def sum.case
    by (simp add: pick_def tie_at_def Let_def p(2))
qed

lemma draws_before_Suc:
  "draws_before pr (Suc k) = (if tie_at pr k then draws_before pr k + 1 else draws_before pr k)"
  by (simp add: draws_before_def)

lemma update_loop:
  assumes rw: "row - 1 = int q" "row = int (Suc q)"
    and r: "Suc q < length Ag" "length (Ag ! q) = nc" "length (Ag ! Suc q) = nc"
    and p: "q < length Pg" "length (Pg ! q) = nc"
  shows "for_range (HawkDove1D_update_body coin nc row Pg) [0..<nc] (Ag, n) =
         Inr (Ag[Suc q := update_row coin n (Pg ! q) (Ag ! q)], n + draws_before (Pg ! q) nc)"
proof -
  let ?g = "imitate coin n (Pg ! q) (Ag ! q)"
  let ?F = "\<lambda>k. (Ag[Suc q := map ?g [0..<k] @ drop k (Ag ! Suc q)], n + draws_before (Pg ! q) k)"
  have "for_range (HawkDove1D_update_body coin nc row Pg) [0..<nc] (?F 0) = Inr (?F nc)"
  proof (rule for_range_upt_fun)
    fix k assume "k < nc"
    then show "HawkDove1D_update_body coin nc row Pg (?F k) k = Inr (?F (Suc k))"
      using update_body_step[OF rw r p, of k "map ?g [0..<k]" coin "n + draws_before (Pg ! q) k"]
      by (simp add: draws_before_Suc imitate_def)
  qed
  then show ?thesis using p r by (simp add: update_row_def draws_before_def)
qed

subsection \<open>One step in closed form\<close>

lemma engine_outcome:
  assumes "wf s" "next_row s = Suc q" "Suc q < rows s" "covers table"
  shows "engine table oor coin (s, n) =
         (case payoff_row table oor (A s ! q) of
            Inl e \<Rightarrow> Inl (e, (s\<lparr>P := (P s)[q := partial_row table oor (A s ! q) (P s ! q)]\<rparr>, n))
          | Inr pr \<Rightarrow>
              Inr (s\<lparr>A := (A s)[Suc q := update_row coin n pr (A s ! q)],
                    P := (P s)[q := pr],
                    next_row := Suc (Suc q)\<rparr>,
                   n + draws_before pr (cols s)))"
proof -
  have la: "length (A s) = rows s" and lp: "length (P s) = rows s"
    using assms(1) by (simp_all add: wf_def shaped_def)
  have ra: "length (A s ! i) = cols s" if "i < rows s" for i
    using assms(1) that by (simp add: wf_def shaped_def)
  have rp: "length (P s ! i) = cols s" if "i < rows s" for i
    using assms(1) that by (simp add: wf_def shaped_def)
  have bq: "bits (A s ! q)"
    using assms(1,3) la by (simp add: wf_def binary_def)
  have q: "q < rows s" using assms(3) by simp
  have 1: "for_range (HawkDove1D_payoff_body oor table (cols s) (int (Suc q)) (A s)) [0..<cols s] (P s) =
      (case payoff_row table oor (A s ! q) of
         Inl e \<Rightarrow> Inl (e, (P s)[q := partial_row table oor (A s ! q) (P s ! q)])
       | Inr pr \<Rightarrow> Inr ((P s)[q := pr]))"
    by (rule payoff_loop) (simp_all add: la lp ra rp q bq assms(4))
  show ?thesis
  proof (cases "payoff_row table oor (A s ! q)")
    case (Inl e)
    show ?thesis
      unfolding engine_def prod.case Let_def assms(2) 1 Inl sum.case by simp
  next
    case (Inr pr)
    have lpr: "length pr = cols s"
      using length_payoff_row[OF Inr] ra[OF q] by simp
    have 2: "for_range (HawkDove1D_update_body coin (cols s) (int (Suc q)) ((P s)[q := pr])) [0..<cols s] (A s, n) =
        Inr ((A s)[Suc q := update_row coin n (((P s)[q := pr]) ! q) (A s ! q)],
             n + draws_before (((P s)[q := pr]) ! q) (cols s))"
      by (rule update_loop) (simp_all add: la lp ra rp q assms(3) lpr)
    have 3: "((P s)[q := pr]) ! q = pr" using q lp by simp
    show ?thesis
      unfolding engine_def prod.case Let_def assms(2) 1 Inr sum.case 2[unfolded 3] by simp
  qed
qed

lemma HawkDove1D_step_outcome:
  assumes "wf s" "1 \<le> next_row s" "next_row s < rows s"
  shows "HawkDove1D_step oor coin (s, n) =
         (case HawkDove1D_table (payoffs s) of
            Inl e \<Rightarrow> Inl (e, (s, n))
          | Inr T \<Rightarrow>
              (case payoff_row T oor (A s ! (next_row s - 1)) of
                 Inl e \<Rightarrow>
                   Inl (e, (s\<lparr>P := (P s)[next_row s - 1 :=
                       partial_row T oor (A s ! (next_row s - 1)) (P s ! (next_row s - 1))]\<rparr>, n))
               | Inr pr \<Rightarrow>
                   Inr (s\<lparr>A := (A s)[next_row s := update_row coin n pr (A s ! (next_row s - 1))],
                         P := (P s)[next_row s - 1 := pr],
                         next_row := next_row s + 1\<rparr>,
                        n + draws_before pr (cols s))))"
proof (cases "HawkDove1D_table (payoffs s)")
  case (Inl e)
  then show ?thesis by (simp add: HawkDove1D_step_engine)
next
  case (Inr T)
  obtain q where q: "next_row s = Suc q"
    using assms(2) by (cases "next_row s") simp_all
  have lt: "Suc q < rows s" using assms(3) q by simp
  have c: "covers T" by (rule HawkDove1D_table_covers[OF Inr])
  show ?thesis
    unfolding HawkDove1D_step_engine fst_conv Inr sum.case engine_outcome[OF assms(1) q lt c] q
    by (cases "payoff_row T oor (A s ! q)") simp_all
qed

lemma HawkDove1D_step_spec:
  assumes "wf s" "1 \<le> next_row s" "next_row s < rows s"
    and "HawkDove1D_table (payoffs s) = Inr T"
    and "payoff_row T oor (A s ! (next_row s - 1)) = Inr pr"
  shows "HawkDove1D_step oor coin (s, n) =
         Inr (s\<lparr>A := (A s)[next_row s := update_row coin n pr (A s ! (next_row s - 1))],
               P := (P s)[next_row s - 1 := pr],
               next_row := next_row s + 1\<rparr>,
              n + draws_before pr (cols s))"
  unfolding HawkDove1D_step_outcome[OF assms(1-3)] assms(4) sum.case assms(5) by simp

lemma HawkDove1D_step_returns:
  assumes "wf s" "1 \<le> next_row s" "next_row s < rows s"
    and "HawkDove1D_step oor coin (s, n) = Inr w"
  shows "\<exists>T pr. HawkDove1D_table (payoffs s) = Inr T \<and>
      payoff_row T oor (A s ! (next_row s - 1)) = Inr pr"
  using assms(4) unfolding HawkDove1D_step_outcome[OF assms(1-3)]
  by (auto split: sum.splits)

lemma HawkDove1D_step_raises:
  assumes "wf s" "1 \<le> next_row s" "next_row s < rows s"
    and "HawkDove1D_step oor coin (s, n) = Inl (e, (s', n'))"
  shows "A s' = A s \<and> next_row s' = next_row s \<and> n' = n \<and>
      payoffs s' = payoffs s \<and> rows s' = rows s \<and> cols s' = cols s \<and>
      (\<exists>row. P s' = (P s)[next_row s - 1 := row] \<and> length row = cols s) \<and>
      (HawkDove1D_table (payoffs s) = Inl e \<or>
       (\<exists>T. HawkDove1D_table (payoffs s) = Inr T \<and>
          payoff_row T oor (A s ! (next_row s - 1)) = Inl e))"
proof -
  let ?q = "next_row s - 1"
  have la: "length (A s) = rows s" and lp: "length (P s) = rows s"
    using assms(1) by (simp_all add: wf_def shaped_def)
  have q: "?q < rows s" using assms(2,3) by simp
  have ra: "length (A s ! ?q) = cols s" and rp: "length (P s ! ?q) = cols s"
    using assms(1) q la lp by (simp_all add: wf_def shaped_def)
  have same: "\<exists>row. P s = (P s)[?q := row] \<and> length row = cols s"
    using rp by (intro exI[of _ "P s ! ?q"]) simp
  show ?thesis
  proof (cases "HawkDove1D_table (payoffs s)")
    case (Inl e0)
    then have "e = e0" "s' = s" "n' = n"
      using assms(4) unfolding HawkDove1D_step_outcome[OF assms(1-3)] by simp_all
    then show ?thesis using Inl same by simp
  next
    case (Inr T)
    show ?thesis
    proof (cases "payoff_row T oor (A s ! ?q)")
      case (Inl e0)
      define row where "row = partial_row T oor (A s ! ?q) (P s ! ?q)"
      have l: "length row = cols s"
        unfolding row_def using length_partial_row[of "P s ! ?q" "A s ! ?q" T oor] ra rp by simp
      have "Inl (e, (s', n')) = Inl (e0, (s\<lparr>P := (P s)[?q := row]\<rparr>, n))"
        using assms(4) unfolding HawkDove1D_step_outcome[OF assms(1-3)] Inr sum.case Inl row_def
        by simp
      then have e: "e = e0" "s' = s\<lparr>P := (P s)[?q := row]\<rparr>" "n' = n"
        by simp_all
      have "\<exists>row. P s' = (P s)[?q := row] \<and> length row = cols s"
        unfolding e using l by (intro exI[of _ row]) simp
      then show ?thesis using Inr Inl e by simp
    next
      case (Inr pr)
      have "HawkDove1D_step oor coin (s, n) = Inr (s\<lparr>A := (A s)[next_row s := update_row coin n pr (A s ! ?q)],
               P := (P s)[?q := pr], next_row := next_row s + 1\<rparr>, n + draws_before pr (cols s))"
        by (rule HawkDove1D_step_spec[OF assms(1-3) \<open>HawkDove1D_table (payoffs s) = Inr T\<close> Inr])
      then show ?thesis using assms(4) by simp
    qed
  qed
qed

lemma seeded_reached: "init_single (init (2, 3) 3 None, 0) = Inr (seeded, 0)"
  by code_simp

lemma wf_seeded: "wf seeded"
  by (simp add: wf_def seeded_def shaped_def binary_def bits_def)

lemma payoff_row_seeded: "payoff_row table_2_3 oor [0, 0, 0, 1, 0, 0, 0] = Inr [2, 2, 1, 4, 1, 2, 2]"
  by (simp add: payoff_row_def payoff_of_def left_of_def right_of_def table_2_3_def dict_def
      str_0 str_1 to_uint8_def upt_conv_Cons)

lemma update_row_seeded: "update_row coin n [2, 2, 1, 4, 1, 2, 2] [0, 0, 0, 1, 0, 0, 0] = [0, 0, 1, 1, 1, 0, 0]"
  by (simp add: update_row_def imitate_def pick_def left_of_def right_of_def Let_def)

lemma draws_before_seeded: "draws_before [2, 2, 1, 4, 1, 2, 2] 7 = 0"
  by code_simp

lemma seeded_step: "HawkDove1D_step oor coin (seeded, n) = Inr (stepped, n)"
proof -
  have 1: "1 \<le> next_row seeded" "next_row seeded < rows seeded"
    by (simp_all add: seeded_def)
  have 2: "A seeded ! (next_row seeded - 1) = [0, 0, 0, 1, 0, 0, 0]" "cols seeded = 7"
    by (simp_all add: seeded_def)
  have t: "HawkDove1D_table (payoffs seeded) = Inr table_2_3"
    by (simp add: seeded_def HawkDove1D_table_2_3)
  have p: "payoff_row table_2_3 oor (A seeded ! (next_row seeded - 1)) = Inr [2, 2, 1, 4, 1, 2, 2]"
    unfolding 2 by (rule payoff_row_seeded)
  show ?thesis
    unfolding HawkDove1D_step_spec[OF wf_seeded 1 t p] 2 update_row_seeded draws_before_seeded
    by (simp add: seeded_def stepped_def)
qed

lemma HawkDove1D_step_cells:
  assumes "wf s" "1 \<le> next_row s" "next_row s < rows s"
    and "HawkDove1D_table (payoffs s) = Inr T"
    and "payoff_row T oor (A s ! (next_row s - 1)) = Inr pr"
  shows "\<exists>s' n'. HawkDove1D_step oor coin (s, n) = Inr (s', n') \<and>
      P s' ! (next_row s - 1) = pr \<and>
      A s' ! next_row s = update_row coin n pr (A s ! (next_row s - 1)) \<and>
      n' = n + draws_before pr (cols s) \<and>
      length pr = cols s \<and>
      length (A s ! (next_row s - 1)) = cols s \<and>
      bits (A s ! (next_row s - 1)) \<and>
      A s' = (A s)[next_row s := A s' ! next_row s] \<and>
      P s' = (P s)[next_row s - 1 := pr] \<and>
      next_row s' = next_row s + 1 \<and>
      rows s' = rows s \<and> cols s' = cols s \<and> payoffs s' = payoffs s"
proof -
  let ?r = "next_row s"
  have la: "length (A s) = rows s" and lp: "length (P s) = rows s"
    using assms(1) by (simp_all add: wf_def shaped_def)
  have ra: "length (A s ! (?r - 1)) = cols s"
    using assms(1-3) la by (simp add: wf_def shaped_def)
  have b: "bits (A s ! (?r - 1))"
    using assms(1-3) la by (simp add: wf_def binary_def)
  have lpr: "length pr = cols s"
    using length_payoff_row[OF assms(5)] ra by simp
  show ?thesis
    unfolding HawkDove1D_step_spec[OF assms]
    using assms(2,3) la lp ra b lpr by simp
qed

lemma HawkDove1D_step_returned:
  assumes "wf s" "1 \<le> next_row s" "next_row s < rows s"
    and "HawkDove1D_step oor coin (s, n) = Inr (s', n')"
  shows "\<exists>T pr. HawkDove1D_table (payoffs s) = Inr T \<and>
      payoff_row T oor (A s ! (next_row s - 1)) = Inr pr \<and>
      P s' ! (next_row s - 1) = pr \<and>
      A s' ! next_row s = update_row coin n pr (A s ! (next_row s - 1)) \<and>
      n' = n + draws_before pr (cols s) \<and>
      length pr = cols s \<and>
      length (A s ! (next_row s - 1)) = cols s \<and>
      bits (A s ! (next_row s - 1)) \<and>
      A s' = (A s)[next_row s := A s' ! next_row s] \<and>
      P s' = (P s)[next_row s - 1 := pr] \<and>
      next_row s' = next_row s + 1 \<and>
      rows s' = rows s \<and> cols s' = cols s \<and> payoffs s' = payoffs s"
proof -
  from HawkDove1D_step_returns[OF assms]
  obtain T pr where T: "HawkDove1D_table (payoffs s) = Inr T"
    and pr: "payoff_row T oor (A s ! (next_row s - 1)) = Inr pr"
    by blast
  from HawkDove1D_step_cells[OF assms(1-3) T pr, of coin n] assms(4) T pr
  show ?thesis by auto
qed

subsection \<open>One cell of a step\<close>

lemma left_of_mod: "c < nc \<Longrightarrow> nat ((int c - 1) mod int nc) = left_of nc c"
proof (cases c)
  case 0
  assume "c < nc"
  then have "(- 1) mod int nc = int nc - 1"
    using 0 by (simp add: zmod_minus1)
  then show ?thesis using 0 by (simp add: left_of_def nat_diff_distrib)
next
  case (Suc k)
  assume "c < nc"
  then have "int k mod int nc = int k" using Suc by simp
  then show ?thesis using Suc by (simp add: left_of_def)
qed

lemma step_cell_pick:
  assumes "wf s" "1 \<le> next_row s" "next_row s < rows s" "c < cols s"
    and "HawkDove1D_step oor coin (s, n) = Inr (s', n')"
  shows "length (P s' ! (next_row s - 1)) = cols s \<and>
      A s' ! (next_row s - 1) = A s ! (next_row s - 1) \<and>
      A s' ! next_row s ! c =
        pick (coin (n + draws_before (P s' ! (next_row s - 1)) c))
          (P s' ! (next_row s - 1)) (A s ! (next_row s - 1)) c"
proof -
  from HawkDove1D_step_returned[OF assms(1-3,5)]
  have a: "A s' ! next_row s = update_row coin n (P s' ! (next_row s - 1)) (A s ! (next_row s - 1))"
    and l: "length (P s' ! (next_row s - 1)) = cols s"
    and f: "A s' = (A s)[next_row s := A s' ! next_row s]"
    by auto
  have "A s' ! (next_row s - 1) = ((A s)[next_row s := A s' ! next_row s]) ! (next_row s - 1)"
    using f by simp
  also have "\<dots> = A s ! (next_row s - 1)"
    using assms(2) by simp
  finally have u: "A s' ! (next_row s - 1) = A s ! (next_row s - 1)" .
  have "A s' ! next_row s ! c = pick (coin (n + draws_before (P s' ! (next_row s - 1)) c))
      (P s' ! (next_row s - 1)) (A s ! (next_row s - 1)) c"
    using assms(4) l by (simp add: a update_row_def imitate_def)
  then show ?thesis using l u by blast
qed

lemma pick_cases:
  "(let l = left_of (length pr) c; rt = right_of (length pr) c; new = pick b pr ar c
    in if pr ! c < pr ! l then
         (if pr ! l < pr ! rt then new = ar ! rt
          else if pr ! l > pr ! rt then new = ar ! l
          else new = (if b then ar ! rt else ar ! l))
       else if pr ! c < pr ! rt then new = ar ! rt
       else new = ar ! c)"
  by (simp add: pick_def Let_def)

lemma branch_cell:
  assumes l: "length pr = nc" and c: "c < nc"
    and n: "new0 = pick b pr ar0 c" and u: "ar = ar0"
  shows "(let Pr = pr; Ar = ar;
           l = nat ((int c - 1) mod int nc); rt = (c + 1) mod nc;
           new = new0
       in Ar = ar0 \<and>
          (if Pr ! c < Pr ! l then
             (if Pr ! l < Pr ! rt then new = Ar ! rt
              else if Pr ! l > Pr ! rt then new = Ar ! l
              else new = (if b then Ar ! rt else Ar ! l))
           else if Pr ! c < Pr ! rt then new = Ar ! rt
           else new = Ar ! c) \<and>
          (Pr ! c = Pr ! l \<and> Pr ! l > Pr ! rt \<longrightarrow> new = Ar ! c))"
proof -
  have r: "(c + 1) mod nc = right_of nc c"
    by (rule right_of_mod[OF c])
  have 1: "if pr ! c < pr ! left_of nc c then
         (if pr ! left_of nc c < pr ! right_of nc c then new0 = ar0 ! right_of nc c
          else if pr ! left_of nc c > pr ! right_of nc c then new0 = ar0 ! left_of nc c
          else new0 = (if b then ar0 ! right_of nc c else ar0 ! left_of nc c))
       else if pr ! c < pr ! right_of nc c then new0 = ar0 ! right_of nc c
       else new0 = ar0 ! c"
    using pick_cases[of pr c b ar0] by (simp add: Let_def l n split: if_splits)
  have 2: "pr ! c = pr ! left_of nc c \<and> pr ! left_of nc c > pr ! right_of nc c \<longrightarrow> new0 = ar0 ! c"
    by (auto simp: n pick_def Let_def l)
  show ?thesis
    unfolding Let_def left_of_mod[OF c] r u using 1 2 by blast
qed

lemma ring_cell:
  assumes l: "length pr = nc"
    and x: "T (str (ar ! left_of nc c) @ str (ar ! c) @ str (ar ! right_of nc c)) = Some x"
    and v: "to_uint8 oor x = Inr (pr ! c)"
    and n: "new0 = pick b pr ar c"
  shows "(let Ar = ar; Pr = pr;
           l = (if c = 0 then nc - 1 else c - 1);
           rt = (if c = nc - 1 then 0 else c + 1);
           new = new0
       in T (str (Ar ! l) @ str (Ar ! c) @ str (Ar ! rt)) = Some x \<and>
          to_uint8 oor x = Inr (Pr ! c) \<and>
          (if Pr ! c < Pr ! l then
             (if Pr ! l < Pr ! rt then new = Ar ! rt
              else if Pr ! l > Pr ! rt then new = Ar ! l
              else new = Ar ! rt \<or> new = Ar ! l)
           else if Pr ! c < Pr ! rt then new = Ar ! rt
           else new = Ar ! c))"
proof -
  have "(if c = 0 then nc - 1 else c - 1) = left_of nc c"
    "(if c = nc - 1 then 0 else c + 1) = right_of nc c"
    by (simp_all add: left_of_def right_of_def)
  then show ?thesis
    using pick_cases[of pr c b ar] x v
    by (simp add: Let_def l n split: if_splits)
qed

subsection \<open>Steps that take no draw\<close>

lemma wf_stepped: "wf stepped"
  by (simp add: wf_def stepped_def shaped_def binary_def bits_def)



lemma tie_free_iff: "tie_free pr \<longleftrightarrow> (\<forall>c < length pr. \<not> tie_at pr c)"
  by (auto simp: tie_free_def list_all_iff)

lemma no_ties_tie_free:
  assumes "\<forall>c < length pr. distinct [pr ! left_of (length pr) c, pr ! c, pr ! right_of (length pr) c]"
  shows "tie_free pr"
  using assms by (auto simp: tie_free_iff tie_at_def)

lemma pick_no_tie: "\<not> tie_at pr c \<Longrightarrow> pick b pr ar c = pick b' pr ar c"
  by (auto simp: pick_def tie_at_def Let_def)

lemma draws_before_tie_free: "tie_free pr \<Longrightarrow> k \<le> length pr \<Longrightarrow> draws_before pr k = 0"
  by (auto simp: draws_before_def tie_free_iff filter_empty_conv)

lemma update_row_tie_free:
  assumes "tie_free pr"
  shows "update_row coin n pr ar = update_row coin' n' pr ar"
  unfolding update_row_def imitate_def
  using assms by (auto simp: tie_free_iff intro: pick_no_tie)

subsection \<open>Objects of different classes\<close>

lemma erase_fields:
  assumes "erase s = erase t"
  shows "rows s = rows t" "cols s = cols t" "A s = A t" "P s = P t" "next_row s = next_row t"
  using assms by (simp_all add: erase_def)

lemma engine_erase:
  assumes "erase s = erase t"
  shows "erase_outcome (engine table oor coin (s, n)) = erase_outcome (engine table oor coin (t, n))"
proof -
  note f = erase_fields[OF assms]
  show ?thesis
    unfolding engine_def prod.case Let_def f
    by (simp add: erase_outcome_def erase_def f split: sum.splits prod.splits)
qed

subsection \<open>The cells stay 0 or 1\<close>

lemma py_index_less: "py_index n i = Some r \<Longrightarrow> r < n"
  by (auto simp: py_index_def split: if_splits)

lemma binary_nth:
  assumes "binary g" "r < length g" "c < length (g ! r)"
  shows "g ! r ! c = 0 \<or> g ! r ! c = 1"
proof -
  have "g ! r \<in> set g" "g ! r ! c \<in> set (g ! r)"
    using assms(2,3) by simp_all
  then show ?thesis using assms(1) unfolding binary_def bits_def by blast
qed

lemma bits_update: "bits xs \<Longrightarrow> x = 0 \<or> x = 1 \<Longrightarrow> bits (xs[c := x])"
  unfolding bits_def using set_update_subset_insert[of xs c x] by auto

lemma binary_update: "binary g \<Longrightarrow> bits xs \<Longrightarrow> binary (g[r := xs])"
  unfolding binary_def using set_update_subset_insert[of g r xs] by auto

lemma np_get_binary:
  assumes "binary g" "np_get g i j = Inr x"
  shows "x = 0 \<or> x = 1"
proof -
  from assms(2) obtain r c where r: "py_index (length g) i = Some r"
    and c: "py_index (length (g ! r)) j = Some c" and x: "x = g ! r ! c"
    by (auto simp: np_get_def split: option.splits)
  show ?thesis
    unfolding x by (rule binary_nth[OF assms(1) py_index_less[OF r] py_index_less[OF c]])
qed

lemma np_set_binary:
  assumes b: "binary g" and x: "x = 0 \<or> x = 1" and s: "np_set g i j x = Inr g'"
  shows "binary g'"
proof -
  from s obtain r c where r: "py_index (length g) i = Some r"
    and g': "g' = g[r := (g ! r)[c := x]]"
    by (auto simp: np_set_def split: option.splits)
  have "bits (g ! r)"
    using b py_index_less[OF r] by (simp add: binary_def)
  then show "binary g'"
    unfolding g' using b x by (intro binary_update bits_update)
qed

lemma np_set_row_binary: "binary g \<Longrightarrow> bits xs \<Longrightarrow> np_set_row g i xs = Inr g' \<Longrightarrow> binary g'"
  by (auto simp: np_set_row_def binary_update split: option.splits if_splits)

lemma for_range_preserves:
  assumes "I s"
    and "\<And>t k t'. I t \<Longrightarrow> body t k = Inr t' \<Longrightarrow> I t'"
    and "\<And>t k e t'. I t \<Longrightarrow> body t k = Inl (e, t') \<Longrightarrow> I t'"
  shows "case for_range body ks s of Inl (e, t) \<Rightarrow> I t | Inr t \<Rightarrow> I t"
  using assms(1)
proof (induction ks arbitrary: s)
  case Nil
  then show ?case by simp
next
  case (Cons k ks)
  show ?case
  proof (cases "body s k")
    case (Inl a)
    obtain e t where a: "a = (e, t)" by (cases a)
    show ?thesis using assms(3)[OF Cons.prems, of k e t] Inl a by simp
  next
    case (Inr t)
    then show ?thesis using Cons.IH[OF assms(2)[OF Cons.prems Inr]] by simp
  qed
qed

lemma keeps_binary_attempt:
  assumes "binary (fst st)" and "\<And>x. m = Inr x \<Longrightarrow> keeps_binary (f x)"
  shows "keeps_binary (attempt m st f)"
  using assms by (cases m; cases st) (simp_all add: attempt_def keeps_binary_def)

lemma keeps_binary_if:
  assumes "c \<Longrightarrow> keeps_binary a" and "\<not> c \<Longrightarrow> keeps_binary b"
  shows "keeps_binary (if c then a else b)"
  using assms by simp

lemma keeps_binary_Inr: "binary Ag \<Longrightarrow> keeps_binary (Inr (Ag, n))"
  by (simp add: keeps_binary_def)

lemma np_set_get_binary:
  assumes "binary g" "np_get g i j = Inr x" "np_set g r c x = Inr g'"
  shows "binary g'"
  using np_set_binary[OF assms(1) np_get_binary[OF assms(1,2)] assms(3)] .

lemma np_set_choice_binary:
  assumes "binary g" "np_get g i j = Inr a" "np_get g i' j' = Inr b"
    and "np_set g r c (if t then b else a) = Inr g'"
  shows "binary g'"
proof -
  have "(if t then b else a) = 0 \<or> (if t then b else a) = 1"
    using np_get_binary[OF assms(1,2)] np_get_binary[OF assms(1,3)] by simp
  from np_set_binary[OF assms(1) this assms(4)] show ?thesis .
qed

lemma update_body_binary:
  assumes "binary Ag"
  shows "keeps_binary (HawkDove1D_update_body coin nc row Pg (Ag, n) k)"
  unfolding HawkDove1D_update_body_def prod.case
  by (intro keeps_binary_attempt keeps_binary_if keeps_binary_Inr)
     (simp_all add: assms,
      (blast intro: np_set_get_binary[OF assms] np_set_choice_binary[OF assms])+)

lemma update_loop_binary:
  assumes "binary Ag"
  shows "keeps_binary (for_range (HawkDove1D_update_body coin nc row Pg) ks (Ag, n))"
proof -
  let ?I = "\<lambda>st :: grid \<times> nat. binary (fst st)"
  have "case for_range (HawkDove1D_update_body coin nc row Pg) ks (Ag, n) of
          Inl (e, t) \<Rightarrow> ?I t | Inr t \<Rightarrow> ?I t"
  proof (rule for_range_preserves)
    show "?I (Ag, n)" using assms by simp
  next
    fix t k t'
    assume "?I t" and "HawkDove1D_update_body coin nc row Pg t k = Inr t'"
    then show "?I t'"
      using update_body_binary[of "fst t" coin nc row Pg "snd t" k]
      by (cases t') (simp add: keeps_binary_def)
  next
    fix t k e t'
    assume "?I t" and "HawkDove1D_update_body coin nc row Pg t k = Inl (e, t')"
    then show "?I t'"
      using update_body_binary[of "fst t" coin nc row Pg "snd t" k]
      by (cases t') (simp add: keeps_binary_def)
  qed
  then show ?thesis
    by (auto simp: keeps_binary_def split: sum.splits prod.splits)
qed

lemma engine_binary:
  assumes "binary (A s)"
  shows "world_binary (engine table oor coin (s, n))"
proof (cases "for_range (HawkDove1D_payoff_body oor table (cols s) (int (next_row s)) (A s)) [0..<cols s] (P s)")
  case (Inl a)
  then show ?thesis
    using assms by (cases a) (simp add: engine_def world_binary_def)
next
  case (Inr Pg)
  have "keeps_binary (for_range (HawkDove1D_update_body coin (cols s) (int (next_row s)) Pg)
      [0..<cols s] (A s, n))"
    by (rule update_loop_binary[OF assms])
  then show ?thesis
    using Inr
    by (simp add: engine_def world_binary_def keeps_binary_def split: sum.splits prod.splits)
qed

lemma loop_binary:
  assumes "\<And>w'. binary (A (fst w')) \<Longrightarrow> world_binary (stepf w')" and "binary (A (fst w))"
  shows "world_binary (loop stepf w)"
proof -
  let ?I = "\<lambda>w' :: 'a world. binary (A (fst w'))"
  have "case for_range (\<lambda>w' i. stepf w') [0..<rows (fst w) - 1] w of
          Inl (e, t) \<Rightarrow> ?I t | Inr t \<Rightarrow> ?I t"
  proof (rule for_range_preserves)
    show "?I w" by (rule assms(2))
  next
    fix t :: "'a world" and k t'
    assume "?I t" and "stepf t = Inr t'"
    then show "?I t'"
      using assms(1)[of t] by (cases t') (simp add: world_binary_def)
  next
    fix t :: "'a world" and k e t'
    assume "?I t" and "stepf t = Inl (e, t')"
    then show "?I t'"
      using assms(1)[of t] by (cases t') (simp add: world_binary_def)
  qed
  then show ?thesis
    by (auto simp: loop_def world_binary_def split: sum.splits prod.splits)
qed

lemma init_binary: "binary (A (init pay m copt))"
  by (simp add: init_def binary_def bits_def Let_def)

lemma init_single_binary:
  assumes "binary (A (fst w))"
  shows "world_binary (init_single w)"
proof (cases w)
  case (Pair s n)
  then show ?thesis
    using assms np_set_binary[of "A s" 1 0 "int (cols s div 2)"]
    by (auto simp: init_single_def world_binary_def split: sum.splits)
qed

lemma init_random_binary:
  assumes "binary (A (fst w))"
  shows "world_binary (init_random coin w)"
proof (cases w)
  case (Pair s n)
  have "bits (map (\<lambda>k. if coin (n + k) then 1 else 0) [0..<cols s])"
    by (auto simp: bits_def)
  then show ?thesis
    using Pair assms np_set_row_binary[of "A s" _ 0]
    by (auto simp: init_random_def world_binary_def Let_def split: sum.splits)
qed

lemma after_binary: "world_binary r \<Longrightarrow> binary (A (fst (after r)))"
  by (auto simp: world_binary_def after_def split: sum.splits prod.splits)

lemma perform_binary:
  assumes "\<And>w'. binary (A (fst w')) \<Longrightarrow> world_binary (stepf w')" and "binary (A (fst w))"
  shows "world_binary (perform stepf coin c w)"
  using assms init_single_binary init_random_binary loop_binary[of stepf w]
  by (cases c) (simp_all add: perform_def)

lemma run_binary:
  assumes "\<And>w'. binary (A (fst w')) \<Longrightarrow> world_binary (stepf w')" and "binary (A (fst w))"
  shows "binary (A (fst (run stepf coin cs w)))"
  using assms(2)
proof (induction cs arbitrary: w)
  case Nil
  then show ?case by (simp add: run_def)
next
  case (Cons c cs)
  have "binary (A (fst (after (perform stepf coin c w))))"
    by (rule after_binary[OF perform_binary[OF assms(1) Cons.prems]])
  from Cons.IH[OF this] show ?case by (simp add: run_def)
qed

lemma HawkDove1D_step_binary:
  assumes "binary (A (fst w))"
  shows "world_binary (HawkDove1D_step oor coin w)"
proof (cases "HawkDove1D_table (payoffs (fst w))")
  case (Inl e)
  then show ?thesis
    using assms unfolding HawkDove1D_step_engine by (cases w) (simp add: world_binary_def)
next
  case (Inr T)
  then show ?thesis
    using assms engine_binary[of "fst w" T oor coin "snd w"] unfolding HawkDove1D_step_engine
    by simp
qed

lemma StagHunt1D_step_binary: "binary (A (fst w)) \<Longrightarrow> world_binary (StagHunt1D_step oor coin w)"
  unfolding StagHunt1D_step_engine by (cases w) (simp add: engine_binary)

lemma PrisonersDilemma1D_step_binary:
  "binary (A (fst w)) \<Longrightarrow> world_binary (PrisonersDilemma1D_step oor coin w)"
  unfolding PrisonersDilemma1D_step_engine by (cases w) (simp add: engine_binary)

lemma run_seeded_twice:
  "run (HawkDove1D_step oor coin) coin [Init_single, Step] (init (2, 3) 3 None, 0) = (stepped, 0)"
  by (simp add: run_def perform_def after_def seeded_reached seeded_step)

subsection \<open>The loop over the rows\<close>



lemma bits_nth: "bits xs \<Longrightarrow> i < length xs \<Longrightarrow> xs ! i = 0 \<or> xs ! i = 1"
  by (simp add: bits_def)




lemma shaped_update: "shaped m nc g \<Longrightarrow> length xs = nc \<Longrightarrow> shaped m nc (g[r := xs])"
  unfolding shaped_def using set_update_subset_insert[of g r xs] by auto










subsection \<open>The states the claims start from are reached by the constructor and one seeding call\<close>

text \<open>
  The step and loop claims are stated for a well-formed automaton whose cursor is past the
  seeded row.  A freshly constructed automaton is well formed, and a successful
  \<open>init_single\<close> or \<open>init_random\<close> on it gives a well-formed automaton with cursor 1
  and an all-zero payoff array.
\<close>

lemma wf_init: "wf (init pay m copt)"
  by (simp add: wf_def init_def shaped_def binary_def bits_def Let_def)

lemma np_set_shaped:
  assumes "shaped m nc g" "np_set g i j x = Inr g'"
  shows "shaped m nc g'"
proof -
  from assms(2) obtain r c where r: "py_index (length g) i = Some r"
    and g': "g' = g[r := (g ! r)[c := x]]"
    by (auto simp: np_set_def split: option.splits)
  have "length (g ! r) = nc"
    using assms(1) py_index_less[OF r] by (simp add: shaped_def)
  then show ?thesis
    unfolding g' by (intro shaped_update[OF assms(1)]) simp
qed

lemma np_set_row_shaped:
  assumes "shaped m nc g" "np_set_row g i xs = Inr g'"
  shows "shaped m nc g'"
proof -
  from assms(2) obtain r where r: "py_index (length g) i = Some r"
    and l: "length xs = length (g ! r)" and g': "g' = g[r := xs]"
    by (auto simp: np_set_row_def split: option.splits if_splits)
  have "length (g ! r) = nc"
    using assms(1) py_index_less[OF r] by (simp add: shaped_def)
  then show ?thesis
    unfolding g' using l by (intro shaped_update[OF assms(1)]) simp
qed

lemma init_single_ready:
  assumes "init_single (init pay m copt, n) = Inr (s, n')"
  shows "wf s \<and> next_row s = 1 \<and> P s = replicate (rows s) (replicate (cols s) 0) \<and>
         rows s = m \<and> payoffs s = pay"
proof -
  let ?i = "init pay m copt"
  from assms obtain Ag where set: "np_set (A ?i) 0 (int (cols ?i div 2)) 1 = Inr Ag"
    and s: "s = ?i\<lparr>A := Ag, next_row := next_row ?i + 1\<rparr>"
    by (auto simp: init_single_def split: sum.splits)
  have w: "wf ?i" by (rule wf_init)
  have "shaped (rows ?i) (cols ?i) Ag"
    using np_set_shaped[OF _ set] w by (simp add: wf_def)
  moreover have "binary Ag"
    using np_set_binary[OF _ _ set] w by (simp add: wf_def)
  ultimately have "wf s"
    using w by (simp add: wf_def s)
  then show ?thesis
    by (simp add: s init_def Let_def)
qed

lemma init_random_ready:
  assumes "init_random coin (init pay m copt, n) = Inr (s, n')"
  shows "wf s \<and> next_row s = 1 \<and> P s = replicate (rows s) (replicate (cols s) 0) \<and>
         rows s = m \<and> payoffs s = pay"
proof -
  let ?i = "init pay m copt"
  let ?xs = "map (\<lambda>k. if coin (n + k) then 1 else 0) [0..<cols ?i]"
  from assms obtain Ag where set: "np_set_row (A ?i) 0 ?xs = Inr Ag"
    and s: "s = ?i\<lparr>A := Ag, next_row := next_row ?i + 1\<rparr>"
    by (auto simp: init_random_def Let_def split: sum.splits)
  have w: "wf ?i" by (rule wf_init)
  have b: "bits ?xs" by (auto simp: bits_def)
  have "shaped (rows ?i) (cols ?i) Ag"
    using np_set_row_shaped[OF _ set] w by (simp add: wf_def)
  moreover have "binary Ag"
    using np_set_row_binary[OF _ b set] w by (simp add: wf_def)
  ultimately have "wf s"
    using w by (simp add: wf_def s)
  then show ?thesis
    by (simp add: s init_def Let_def)
qed

subsection \<open>The objects of the examples\<close>

lemma payoff_row_stepped_stored:
  assumes "oor (- 1) = Inr u"
  shows "payoff_row table_2_3 oor [0, 0, 1, 1, 1, 0, 0] = Inr [2, 1, 1, u, 1, 1, 2]"
  using assms
  by (simp add: payoff_row_def payoff_of_def left_of_def right_of_def table_2_3_def dict_def
      str_0 str_1 to_uint8_def upt_conv_Cons)

lemma payoff_row_stepped_raised:
  assumes "oor (- 1) = Inl e"
  shows "payoff_row table_2_3 oor [0, 0, 1, 1, 1, 0, 0] = Inl e"
  using assms
  by (simp add: payoff_row_def payoff_of_def left_of_def right_of_def table_2_3_def dict_def
      str_0 str_1 to_uint8_def upt_conv_Cons)

lemma partial_row_stepped_raised:
  assumes "oor (- 1) = Inl e"
  shows "partial_row table_2_3 oor [0, 0, 1, 1, 1, 0, 0] [0, 0, 0, 0, 0, 0, 0] = [2, 1, 1, 0, 0, 0, 0]"
  using assms
  by (simp add: partial_row_def payoff_of_def left_of_def right_of_def table_2_3_def dict_def
      str_0 str_1 to_uint8_def upt_conv_Cons Let_def)

lemma stepped_facts:
  "1 \<le> next_row stepped" "next_row stepped < rows stepped"
  "HawkDove1D_table (payoffs stepped) = Inr table_2_3"
  "A stepped ! (next_row stepped - 1) = [0, 0, 1, 1, 1, 0, 0]"
  "P stepped ! (next_row stepped - 1) = [0, 0, 0, 0, 0, 0, 0]"
  "next_row stepped - 1 = 1"
  by (simp_all add: stepped_def HawkDove1D_table_2_3)

lemma stepped_step_raised:
  assumes "oor (- 1) = Inl e"
  shows "HawkDove1D_step oor coin (stepped, n) = Inl (e, (stepped_partly, n))"
  unfolding HawkDove1D_step_outcome[OF wf_stepped stepped_facts(1,2)] stepped_facts(3) sum.case
    stepped_facts(4,5) payoff_row_stepped_raised[where oor = oor, OF assms]
    partial_row_stepped_raised[where oor = oor, OF assms]
  by (simp add: stepped_def stepped_partly_def)

lemma stepped_step_stored:
  assumes "oor (- 1) = Inr u"
  shows "\<exists>s' n'. HawkDove1D_step oor coin (stepped, n) = Inr (s', n') \<and>
      P s' ! 1 = [2, 1, 1, u, 1, 1, 2]"
proof -
  have p: "payoff_row table_2_3 oor (A stepped ! (next_row stepped - 1)) = Inr [2, 1, 1, u, 1, 1, 2]"
    unfolding stepped_facts(4) by (rule payoff_row_stepped_stored[where oor = oor, OF assms])
  from HawkDove1D_step_cells[OF wf_stepped stepped_facts(1,2,3) p, of coin n]
  show ?thesis unfolding stepped_facts(6) by blast
qed





lemma HawkDove1D_table_2_m2: "HawkDove1D_table (2, - 2) = Inr (StagHunt1D_table (2, 1, 0))"
proof -
  have h: "int_truediv_2 (2 - - 2) = Inr 2" "int_truediv_2 2 = Inr 1"
    "int_to_float 2 = Inr 2" "int_to_float 0 = Inr 0"
    using int_truediv_2_small[of 4] int_truediv_2_small[of 2] int_to_float_small[of 2]
      int_to_float_small[of 0]
    by simp_all
  have a: "float_add 2 2 = Number 4" "float_add 0 1 = Number 1"
    "float_add 1 0 = Number 1" "float_add 1 1 = Number 2"
    using float_add_small[of 2 2 8] float_add_small[of 0 1 2]
      float_add_small[of 1 0 2] float_add_small[of 1 1 4]
    by simp_all
  show ?thesis
    unfolding HawkDove1D_table_def prod.case float_plus_float_def float_plus_int_def
      int_plus_float_def h sum.case a
    by (simp add: dict_display_def StagHunt1D_table_def)
qed


subsection \<open>Every stored payoff row has equal payoffs in some neighbourhood\<close>

text \<open>
  The three tables give the same payoff to a neighbourhood and to its mirror image
  (\<open>'110'\<close> and \<open>'011'\<close>, \<open>'100'\<close> and \<open>'001'\<close>). On a ring of 0/1 cells this forces, at some
  column, two equal payoffs among left neighbour, cell and right neighbour: on a grid
  with at least one column, a step never stores a payoff row in which the three payoffs
  differ at every column. The condition \<open>tie_free\<close> is weaker and is met by stored rows.
\<close>

lemma ring_has_tie:
  fixes g :: "int \<Rightarrow> 'a" and F :: "'a \<Rightarrow> 'a \<Rightarrow> 'a \<Rightarrow> 'b"
  assumes B: "\<And>i. g i = x \<or> g i = y"
    and S: "\<And>i j k. F (g i) (g j) (g k) = F (g k) (g j) (g i)"
    and N: "\<And>i. F (g (i - 1)) (g i) (g (i + 1)) \<noteq> F (g i) (g (i + 1)) (g (i + 2))"
    and O: "\<And>i. F (g (i - 2)) (g (i - 1)) (g i) \<noteq> F (g i) (g (i + 1)) (g (i + 2))"
  shows False
proof -
  have alt: "g c \<noteq> g (c + 1)" for c
  proof
    assume e: "g c = g (c + 1)"
    have 1: "g (c - 1) \<noteq> g (c + 2)"
      using N[of c] S[of "c + 2" "c + 1" c] e by auto
    show False
    proof (cases "g (c - 1) = g c")
      case True
      have "g (c - 1 - 1) \<noteq> g (c - 1 + 2)"
        using N[of "c - 1"] S[of "c + 1" c "c - 1"] True e by (auto simp: algebra_simps)
      then have 2: "g (c - 2) \<noteq> g c"
        using e by (simp add: algebra_simps)
      show False
        using O[of c] S[of "c + 2" "c + 1" c] e True 1 2 B[of "c - 2"] B[of "c + 2"] B[of c]
        by (auto simp: algebra_simps)
    next
      case False
      then have t: "g (c + 2) = g c"
        using 1 B[of "c - 1"] B[of "c + 2"] B[of c] by auto
      have 3: "g (c + 3) \<noteq> g c"
        using N[of "c + 1"] S[of "c + 3" "c + 2" "c + 1"] t e by (auto simp: algebra_simps)
      show False
        using O[of "c + 1"] S[of "c + 3" "c + 2" "c + 1"] e t 3 False B[of "c + 3"] B[of "c - 1"] B[of c]
        by (auto simp: algebra_simps)
    qed
  qed
  have per: "g (c + 2) = g c" for c
    using alt[of c] alt[of "c + 1"] B[of c] B[of "c + 1"] B[of "c + 2"] by (auto simp: algebra_simps)
  show False
    using O[of 0] per[of "-2"] per[of "-1"] per[of 0] by simp
qed

lemma ring_index:
  assumes "0 < nc"
  shows "nat (i mod int nc) < nc"
    and "left_of nc (nat (i mod int nc)) = nat ((i - 1) mod int nc)"
    and "right_of nc (nat (i mod int nc)) = nat ((i + 1) mod int nc)"
proof -
  let ?c = "nat (i mod int nc)"
  show c: "?c < nc"
    using assms by (simp add: nat_less_iff)
  have ic: "int ?c = i mod int nc"
    using assms by simp
  have "nat ((i - 1) mod int nc) = nat ((int ?c - 1) mod int nc)"
    unfolding ic by (simp add: mod_diff_left_eq)
  then show "left_of nc ?c = nat ((i - 1) mod int nc)"
    using left_of_mod[OF c] by simp
  have "nat ((i + 1) mod int nc) = nat ((int ?c + 1) mod int nc)"
    unfolding ic by (simp add: mod_add_left_eq)
  also have "\<dots> = (?c + 1) mod nc"
    by (metis nat_int of_nat_1 of_nat_add zmod_int)
  finally show "right_of nc ?c = nat ((i + 1) mod int nc)"
    using right_of_mod[OF c] by simp
qed

lemma payoff_row_has_tie:
  assumes mirror: "\<And>a b c. a \<in> {0, 1} \<Longrightarrow> b \<in> {0, 1} \<Longrightarrow> c \<in> {0, 1} \<Longrightarrow>
      table (str a @ str b @ str c) = table (str c @ str b @ str a)"
    and b: "bits ar" and ne: "ar \<noteq> []"
    and pr: "payoff_row table oor ar = Inr pr"
    and no_ties: "\<forall>c < length ar. distinct
      [pr ! left_of (length ar) c, pr ! c, pr ! right_of (length ar) c]"
  shows False
proof -
  define nc where "nc = length ar"
  define idx where "idx i = nat (i mod int nc)" for i
  define g where "g i = ar ! idx i" for i
  define F where "F a b c = to_uint8 oor (the (table (str a @ str b @ str c)))" for a b c
  have nc: "0 < nc"
    using ne by (simp add: nc_def)
  have lt: "idx i < nc" and l: "left_of nc (idx i) = idx (i - 1)"
    and r: "right_of nc (idx i) = idx (i + 1)" for i
    unfolding idx_def by (rule ring_index[OF nc])+
  have B: "g i = 0 \<or> g i = 1" for i
    unfolding g_def using bits_nth[OF b, of "idx i"] lt[of i] by (simp add: nc_def)
  have q: "Inr (pr ! idx i) = F (g (i - 1)) (g i) (g (i + 1))" for i
    using payoff_row_nth[OF pr, of "idx i"] lt[of i] l[of i] r[of i]
    by (simp add: payoff_of_def F_def g_def nc_def)
  have S: "F (g i) (g j) (g k) = F (g k) (g j) (g i)" for i j k
    unfolding F_def using mirror[of "g i" "g j" "g k"] B[of i] B[of j] B[of k] by auto
  have d: "distinct [pr ! idx (i - 1), pr ! idx i, pr ! idx (i + 1)]" for i
    using no_ties[rule_format, of "idx i"] lt[of i] l[of i] r[of i] by (simp add: nc_def)
  have D: "distinct [F (g (i - 2)) (g (i - 1)) (g i), F (g (i - 1)) (g i) (g (i + 1)),
      F (g i) (g (i + 1)) (g (i + 2))]" for i
    using d[of i] q[of i, symmetric] q[of "i - 1", symmetric] q[of "i + 1", symmetric]
    by (simp add: algebra_simps)
  show False
  proof (rule ring_has_tie[of g 0 1 F])
    show "g i = 0 \<or> g i = 1" for i by (rule B)
    show "F (g i) (g j) (g k) = F (g k) (g j) (g i)" for i j k by (rule S)
    show "F (g (i - 1)) (g i) (g (i + 1)) \<noteq> F (g i) (g (i + 1)) (g (i + 2))" for i
      using D[of i] by simp
    show "F (g (i - 2)) (g (i - 1)) (g i) \<noteq> F (g i) (g (i + 1)) (g (i + 2))" for i
      using D[of i] by simp
  qed
qed

lemma HawkDove1D_table_mirror:
  assumes "HawkDove1D_table pay = Inr T" "a \<in> {0, 1}" "b \<in> {0, 1}" "c \<in> {0, 1}"
  shows "T (str a @ str b @ str c) = T (str c @ str b @ str a)"
proof -
  from HawkDove1D_table_Inr[of "fst pay" "snd pay" T] assms(1)
  obtain h g f where T: "T = dict [(''111'', float_add h h), (''110'', float_add h f),
      (''101'', Number 0), (''100'', float_add 0 g), (''011'', float_add f h),
      (''010'', Number (of_int (fst pay + fst pay))), (''001'', float_add g 0), (''000'', float_add g g)]"
    by auto
  have c: "float_add h f = float_add f h" "float_add 0 g = float_add g 0"
    by (rule float_add_commute)+
  have k: "T ''110'' = T ''011''" "T ''100'' = T ''001''"
    unfolding T dict_def by (simp_all add: c)
  show ?thesis
    using assms(2-4) k by (auto simp: str_0 str_1)
qed

lemma stored_payoff_row_has_tie:
  assumes "wf s" "1 \<le> next_row s" "next_row s < rows s" "1 \<le> cols s"
    and "HawkDove1D_step oor coin (s, n) = Inr (s', n')"
  shows "\<exists>c < cols s. \<not> distinct
      [P s' ! (next_row s - 1) ! left_of (cols s) c, P s' ! (next_row s - 1) ! c,
       P s' ! (next_row s - 1) ! right_of (cols s) c]"
proof -
  let ?r = "next_row s"
  let ?ar = "A s ! (?r - 1)"
  from HawkDove1D_step_returned[OF assms(1-3,5)]
  obtain T pr where T: "HawkDove1D_table (payoffs s) = Inr T"
    and pr: "payoff_row T oor ?ar = Inr pr" and P: "P s' ! (?r - 1) = pr"
    and ra: "length ?ar = cols s" and b: "bits ?ar"
    by blast
  have ne: "?ar \<noteq> []"
    using ra assms(4) by auto
  show ?thesis
  proof (rule ccontr)
    assume "\<not> ?thesis"
    then have "\<forall>c < length ?ar. distinct
        [pr ! left_of (length ?ar) c, pr ! c, pr ! right_of (length ?ar) c]"
      unfolding P ra by blast
    from payoff_row_has_tie[OF HawkDove1D_table_mirror[OF T] b ne pr this]
    show False .
  qed
qed


lemma StagHunt1D_table_mirror:
  assumes "a \<in> {0, 1}" "b \<in> {0, 1}" "c \<in> {0, 1}"
  shows "StagHunt1D_table pay (str a @ str b @ str c) = StagHunt1D_table pay (str c @ str b @ str a)"
proof -
  have k: "StagHunt1D_table pay ''110'' = StagHunt1D_table pay ''011''"
    "StagHunt1D_table pay ''100'' = StagHunt1D_table pay ''001''"
    by (cases pay; simp add: StagHunt1D_table_def dict_def Let_def add.commute)+
  show ?thesis
    using assms k by (auto simp: str_0 str_1)
qed

lemma PrisonersDilemma1D_table_mirror:
  assumes "a \<in> {0, 1}" "b \<in> {0, 1}" "c \<in> {0, 1}"
  shows "PrisonersDilemma1D_table pay (str a @ str b @ str c) =
         PrisonersDilemma1D_table pay (str c @ str b @ str a)"
proof -
  have k: "PrisonersDilemma1D_table pay ''110'' = PrisonersDilemma1D_table pay ''011''"
    "PrisonersDilemma1D_table pay ''100'' = PrisonersDilemma1D_table pay ''001''"
    by (cases pay; simp add: PrisonersDilemma1D_table_def dict_def add.commute)+
  show ?thesis
    using assms k by (auto simp: str_0 str_1)
qed

subsection \<open>When a step returns\<close>

text \<open>
  A step with the cursor inside the grid returns exactly when the table can be built
  and the payoffs of the row can be stored. The table of \<open>HawkDove1D\<close> can be built
  when \<open>v\<close> and \<open>v - c\<close> are below \<open>2^53\<close> in magnitude, and not when \<open>v - c\<close> is \<open>2^1025\<close>
  or more (\<open>HawkDove1D_table_huge\<close>); a table whose entries truncate into \<open>0 .. 255\<close> can
  be stored whatever the conversion of the other values is.
\<close>

lemma HawkDove1D_table_small:
  assumes "\<bar>v - c\<bar> < 2 ^ 53" "\<bar>v\<bar> < 2 ^ 53"
  shows "\<exists>T. HawkDove1D_table (v, c) = Inr T"
proof -
  have z: "int_to_float 0 = Inr 0"
    using int_to_float_small[of 0] by simp
  show ?thesis
    unfolding HawkDove1D_table_def prod.case float_plus_float_def float_plus_int_def
      int_plus_float_def int_truediv_2_small[OF assms(1)] int_truediv_2_small[OF assms(2)]
      int_to_float_small[OF assms(2)] z sum.case dict_display_def list.map snd_conv
    by (simp only: collect.simps sum.case) blast
qed

lemma storable_in_range:
  assumes "covers table"
    and "\<And>k x. table k = Some x \<Longrightarrow> \<exists>y. x = Number y \<and> - 1 < y \<and> y < 256"
  shows "storable oor table"
  unfolding storable_def
proof (intro ballI)
  fix a b c :: u8
  assume "a \<in> {0, 1}" "b \<in> {0, 1}" "c \<in> {0, 1}"
  then obtain x where x: "table (str a @ str b @ str c) = Some x"
    using assms(1) unfolding covers_def by blast
  from assms(2)[OF x] obtain y where "x = Number y" "- 1 < y" "y < 256" by blast
  then have "\<exists>u. to_uint8 oor x = Inr u"
    by (simp add: to_uint8_def)
  then show "\<exists>x u. table (str a @ str b @ str c) = Some x \<and> to_uint8 oor x = Inr u"
    using x by blast
qed

lemma HawkDove1D_step_returns_iff:
  assumes "wf s" "1 \<le> next_row s" "next_row s < rows s"
  shows "(\<exists>w. HawkDove1D_step oor coin (s, n) = Inr w) \<longleftrightarrow>
         (\<exists>T pr. HawkDove1D_table (payoffs s) = Inr T \<and>
            payoff_row T oor (A s ! (next_row s - 1)) = Inr pr)"
proof
  assume "\<exists>w. HawkDove1D_step oor coin (s, n) = Inr w"
  then obtain w where "HawkDove1D_step oor coin (s, n) = Inr w" by blast
  from HawkDove1D_step_returns[OF assms this]
  show "\<exists>T pr. HawkDove1D_table (payoffs s) = Inr T \<and>
      payoff_row T oor (A s ! (next_row s - 1)) = Inr pr" .
next
  assume "\<exists>T pr. HawkDove1D_table (payoffs s) = Inr T \<and>
      payoff_row T oor (A s ! (next_row s - 1)) = Inr pr"
  then obtain T pr where "HawkDove1D_table (payoffs s) = Inr T"
    "payoff_row T oor (A s ! (next_row s - 1)) = Inr pr" by blast
  from HawkDove1D_step_spec[OF assms this, of coin n]
  show "\<exists>w. HawkDove1D_step oor coin (s, n) = Inr w" by blast
qed

lemma HawkDove1D_step_raised_untouched:
  assumes "wf s" "1 \<le> next_row s" "next_row s < rows s"
    and "HawkDove1D_step oor coin (s, n) = Inl (e, (s', n'))"
  shows "A s' = A s \<and> next_row s' = next_row s \<and> n' = n"
  using HawkDove1D_step_raises[OF assms] by blast



section \<open>The claims\<close>

text \<open>
  \<^bold>\<open>Claim C1.\<close> A step at cursor \<open>r\<close>, \<open>1 \<le> r < rows\<close>, of a well-formed object either
  raises, and then has written nothing to \<open>A\<close> and left the cursor and the random stream
  where they were, or returns, and then for every column \<open>c\<close>, with \<open>l = (c - 1) mod cols\<close>,
  \<open>rt = (c + 1) mod cols\<close>, \<open>Pr\<close> the payoff row \<open>r - 1\<close> just stored and \<open>Ar\<close> the strategy
  row \<open>r - 1\<close> (which the step leaves as it was), the cell \<open>new\<close> written at row \<open>r\<close>,
  column \<open>c\<close> follows the chain of the source: if \<open>Pr[c] < Pr[l]\<close> then (if
  \<open>Pr[l] < Pr[rt]\<close> it is \<open>Ar[rt]\<close>, else if \<open>Pr[l] > Pr[rt]\<close> it is \<open>Ar[l]\<close>, else it is
  \<open>Ar[rt]\<close> or \<open>Ar[l]\<close> as the draw says), else if \<open>Pr[c] < Pr[rt]\<close> it is \<open>Ar[rt]\<close>, else
  \<open>Ar[c]\<close>. The draw of column \<open>c\<close> is the one at the position of the stream before the
  step plus the number of tied columns before \<open>c\<close>. In particular, when
  \<open>Pr[c] = Pr[l] > Pr[rt]\<close> the cell keeps \<open>Ar[c]\<close>. The step returns exactly when the
  table can be built and every payoff of row \<open>r - 1\<close> can be stored.
\<close>

theorem step_branch_structure:
  assumes "wf s" "1 \<le> next_row s" "next_row s < rows s" "c < cols s"
  shows "(case HawkDove1D_step oor coin (s, n) of
            Inl (e, (s', n')) \<Rightarrow> A s' = A s \<and> next_row s' = next_row s \<and> n' = n
          | Inr (s', n') \<Rightarrow>
              (let Pr = P s' ! (next_row s - 1); Ar = A s' ! (next_row s - 1);
                   l = nat ((int c - 1) mod int (cols s)); rt = (c + 1) mod cols s;
                   new = A s' ! next_row s ! c
               in Ar = A s ! (next_row s - 1) \<and>
                  (if Pr ! c < Pr ! l then
                     (if Pr ! l < Pr ! rt then new = Ar ! rt
                      else if Pr ! l > Pr ! rt then new = Ar ! l
                      else new = (if coin (n + draws_before Pr c) then Ar ! rt else Ar ! l))
                   else if Pr ! c < Pr ! rt then new = Ar ! rt
                   else new = Ar ! c) \<and>
                  (Pr ! c = Pr ! l \<and> Pr ! l > Pr ! rt \<longrightarrow> new = Ar ! c))) \<and>
         ((\<exists>w. HawkDove1D_step oor coin (s, n) = Inr w) \<longleftrightarrow>
          (\<exists>T pr. HawkDove1D_table (payoffs s) = Inr T \<and>
             payoff_row T oor (A s ! (next_row s - 1)) = Inr pr))"
proof (rule conjI)
  show "(\<exists>w. HawkDove1D_step oor coin (s, n) = Inr w) \<longleftrightarrow>
          (\<exists>T pr. HawkDove1D_table (payoffs s) = Inr T \<and>
             payoff_row T oor (A s ! (next_row s - 1)) = Inr pr)"
    by (rule HawkDove1D_step_returns_iff[OF assms(1-3)])
next
  show "case HawkDove1D_step oor coin (s, n) of
            Inl (e, (s', n')) \<Rightarrow> A s' = A s \<and> next_row s' = next_row s \<and> n' = n
          | Inr (s', n') \<Rightarrow>
              (let Pr = P s' ! (next_row s - 1); Ar = A s' ! (next_row s - 1);
                   l = nat ((int c - 1) mod int (cols s)); rt = (c + 1) mod cols s;
                   new = A s' ! next_row s ! c
               in Ar = A s ! (next_row s - 1) \<and>
                  (if Pr ! c < Pr ! l then
                     (if Pr ! l < Pr ! rt then new = Ar ! rt
                      else if Pr ! l > Pr ! rt then new = Ar ! l
                      else new = (if coin (n + draws_before Pr c) then Ar ! rt else Ar ! l))
                   else if Pr ! c < Pr ! rt then new = Ar ! rt
                   else new = Ar ! c) \<and>
                  (Pr ! c = Pr ! l \<and> Pr ! l > Pr ! rt \<longrightarrow> new = Ar ! c))"
  proof (cases "HawkDove1D_step oor coin (s, n)")
    case (Inl a)
    obtain e s' n' where a: "a = (e, (s', n'))" by (cases a) auto
    from HawkDove1D_step_raised_untouched[OF assms(1-3) Inl[unfolded a]]
    show ?thesis unfolding Inl a by simp
  next
    case (Inr w)
    obtain s' n' where w: "w = (s', n')" by (cases w)
    from step_cell_pick[OF assms Inr[unfolded w]]
    have l: "length (P s' ! (next_row s - 1)) = cols s"
      and u: "A s' ! (next_row s - 1) = A s ! (next_row s - 1)"
      and p: "A s' ! next_row s ! c =
          pick (coin (n + draws_before (P s' ! (next_row s - 1)) c))
            (P s' ! (next_row s - 1)) (A s ! (next_row s - 1)) c"
      by blast+
    show ?thesis
      unfolding Inr w sum.case prod.case Let_def
      using branch_cell[OF l assms(4) p u, unfolded Let_def] .
  qed
qed

theorem step_branch_structure_witness:
  "wf seeded \<and> 1 \<le> next_row seeded \<and> next_row seeded < rows seeded \<and> 4 < cols seeded \<and>
   HawkDove1D_step raising tails (seeded, 0) = Inr (stepped, 0) \<and>
   P stepped ! 0 ! 4 < P stepped ! 0 ! 3 \<and> P stepped ! 0 ! 5 < P stepped ! 0 ! 3 \<and>
   A stepped ! 1 ! 4 = A stepped ! 0 ! 3 \<and>
   HawkDove1D_table (payoffs seeded) = Inr table_2_3 \<and>
   payoff_row table_2_3 raising (A seeded ! (next_row seeded - 1)) = Inr (P stepped ! 0)"
proof -
  have h: "1 \<le> next_row seeded" "next_row seeded < rows seeded" "4 < cols seeded"
    by (simp_all add: seeded_def)
  from step_branch_structure[OF wf_seeded h, where oor = raising and coin = tails and n = 0]
  have "A stepped ! 1 ! 4 = A stepped ! 0 ! 3"
    by (simp add: seeded_step Let_def) (simp add: seeded_def stepped_def)
  moreover have "P stepped ! 0 ! 4 < P stepped ! 0 ! 3" "P stepped ! 0 ! 5 < P stepped ! 0 ! 3"
    by (simp_all add: stepped_def)
  moreover have "HawkDove1D_table (payoffs seeded) = Inr table_2_3"
    by (simp add: seeded_def HawkDove1D_table_2_3)
  moreover have "payoff_row table_2_3 raising (A seeded ! (next_row seeded - 1)) = Inr (P stepped ! 0)"
    using payoff_row_seeded[of raising] by (simp add: seeded_def stepped_def)
  ultimately show ?thesis
    using wf_seeded h seeded_step[of raising tails 0] by simp
qed

text \<open>
  \<^bold>\<open>Claim C2.\<close> The claim is that \<open>P[r-1, c]\<close> holds exactly the table value of the
  neighbourhood, with no truncation or wrap-around on storage. \<open>P\<close> is
  \<open>np.zeros_like(A)\<close> and so has the dtype \<open>uint8\<close> of \<open>A\<close>. With the payoffs of the
  notebook, \<open>(2, 3)\<close>, and three rows: after \<open>init_single()\<close> and one \<open>step()\<close> row 1 of \<open>A\<close>
  is \<open>0 0 1 1 1 0 0\<close>; the next step looks up \<open>table['011'] = 3/2\<close> for column 2 and stores
  1, whether it then returns or raises; and it looks up \<open>table['111'] = -1\<close> for column
  3: where the conversion of \<open>-1\<close> to \<open>uint8\<close> raises, the step raises with three cells of
  payoff row 1 stored, and where it gives a byte, the step returns with that byte at
  column 3.
\<close>

theorem stored_payoff_truncated:
  "init_single (init (2, 3) 3 None, n) = Inr (seeded, n) \<and>
   HawkDove1D_step oor coin (seeded, n) = Inr (stepped, n) \<and>
   HawkDove1D_table (payoffs stepped) = Inr table_2_3 \<and>
   table_2_3 (str (A stepped ! 1 ! 1) @ str (A stepped ! 1 ! 2) @ str (A stepped ! 1 ! 3)) =
     Some (Number (3 / 2)) \<and>
   P (fst (after (HawkDove1D_step oor coin (stepped, n)))) ! 1 ! 2 = 1 \<and>
   table_2_3 (str (A stepped ! 1 ! 2) @ str (A stepped ! 1 ! 3) @ str (A stepped ! 1 ! 4)) =
     Some (Number (- 1)) \<and>
   (case oor (- 1) of
      Inl e \<Rightarrow> HawkDove1D_step oor coin (stepped, n) = Inl (e, (stepped_partly, n))
    | Inr u \<Rightarrow> (\<exists>s' n'. HawkDove1D_step oor coin (stepped, n) = Inr (s', n') \<and> P s' ! 1 ! 3 = u))"
proof -
  have i: "init_single (init (2::int, 3::int) 3 None, n) = Inr (seeded, n)"
    by code_simp
  have t1: "table_2_3 (str (A stepped ! 1 ! 1) @ str (A stepped ! 1 ! 2) @ str (A stepped ! 1 ! 3)) =
      Some (Number (3 / 2))"
    by (simp add: stepped_def table_2_3_def dict_def str_0 str_1)
  have t2: "table_2_3 (str (A stepped ! 1 ! 2) @ str (A stepped ! 1 ! 3) @ str (A stepped ! 1 ! 4)) =
      Some (Number (- 1))"
    by (simp add: stepped_def table_2_3_def dict_def str_0 str_1)
  have c: "P (fst (after (HawkDove1D_step oor coin (stepped, n)))) ! 1 ! 2 = 1 \<and>
      (case oor (- 1) of
         Inl e \<Rightarrow> HawkDove1D_step oor coin (stepped, n) = Inl (e, (stepped_partly, n))
       | Inr u \<Rightarrow> (\<exists>s' n'. HawkDove1D_step oor coin (stepped, n) = Inr (s', n') \<and> P s' ! 1 ! 3 = u))"
  proof (cases "oor (- 1)")
    case (Inl e)
    have "HawkDove1D_step oor coin (stepped, n) = Inl (e, (stepped_partly, n))"
      by (rule stepped_step_raised[where oor = oor, OF Inl])
    then show ?thesis
      unfolding Inl by (simp add: after_def stepped_partly_def)
  next
    case (Inr u)
    from stepped_step_stored[where oor = oor, OF Inr, of coin n]
    obtain s' n' where st: "HawkDove1D_step oor coin (stepped, n) = Inr (s', n')"
      and p: "P s' ! 1 = [2, 1, 1, u, 1, 1, 2]"
      by blast
    have "P s' ! 1 ! 2 = 1" "P s' ! 1 ! 3 = u"
      unfolding p by simp_all
    then show ?thesis
      unfolding Inr using st by (simp add: after_def)
  qed
  show ?thesis
    using i seeded_step[of oor coin n] stepped_facts(3) t1 t2 c by blast
qed

text \<open>
  \<^bold>\<open>Claim C3.\<close> A step at cursor \<open>r\<close>, \<open>1 \<le> r < rows\<close>, of a well-formed object either
  raises, and then has written nothing to \<open>A\<close>, or returns, and then the key of column
  \<open>c\<close> of the row it processed is made of the cells at \<open>l\<close>, \<open>c\<close> and \<open>rt\<close>, where \<open>l\<close> is
  \<open>cols - 1\<close> for column 0 and \<open>c - 1\<close> otherwise, and \<open>rt\<close> is 0 for column \<open>cols - 1\<close>
  and \<open>c + 1\<close> otherwise; the table has that key and the payoff stored at column \<open>c\<close> is
  its value converted to \<open>uint8\<close>. The update compares the payoffs at the same three
  columns and copies from the same three cells. The step returns exactly when the table
  can be built and every payoff of row \<open>r - 1\<close> can be stored.
\<close>

theorem step_ring_neighbourhood:
  assumes "wf s" "1 \<le> next_row s" "next_row s < rows s" "c < cols s"
  shows "(case HawkDove1D_step oor coin (s, n) of
            Inl (e, (s', n')) \<Rightarrow> A s' = A s \<and> next_row s' = next_row s \<and> n' = n
          | Inr (s', n') \<Rightarrow>
              (\<exists>T x. HawkDove1D_table (payoffs s) = Inr T \<and>
                 (let Ar = A s ! (next_row s - 1); Pr = P s' ! (next_row s - 1);
                      l = (if c = 0 then cols s - 1 else c - 1);
                      rt = (if c = cols s - 1 then 0 else c + 1);
                      new = A s' ! next_row s ! c
                  in T (str (Ar ! l) @ str (Ar ! c) @ str (Ar ! rt)) = Some x \<and>
                     to_uint8 oor x = Inr (Pr ! c) \<and>
                     (if Pr ! c < Pr ! l then
                        (if Pr ! l < Pr ! rt then new = Ar ! rt
                         else if Pr ! l > Pr ! rt then new = Ar ! l
                         else new = Ar ! rt \<or> new = Ar ! l)
                      else if Pr ! c < Pr ! rt then new = Ar ! rt
                      else new = Ar ! c)))) \<and>
         ((\<exists>w. HawkDove1D_step oor coin (s, n) = Inr w) \<longleftrightarrow>
          (\<exists>T pr. HawkDove1D_table (payoffs s) = Inr T \<and>
             payoff_row T oor (A s ! (next_row s - 1)) = Inr pr))"
proof (rule conjI)
  show "(\<exists>w. HawkDove1D_step oor coin (s, n) = Inr w) \<longleftrightarrow>
          (\<exists>T pr. HawkDove1D_table (payoffs s) = Inr T \<and>
             payoff_row T oor (A s ! (next_row s - 1)) = Inr pr)"
    by (rule HawkDove1D_step_returns_iff[OF assms(1-3)])
next
  let ?r = "next_row s"
  let ?Ar = "A s ! (?r - 1)"
  show "case HawkDove1D_step oor coin (s, n) of
            Inl (e, (s', n')) \<Rightarrow> A s' = A s \<and> next_row s' = next_row s \<and> n' = n
          | Inr (s', n') \<Rightarrow>
              (\<exists>T x. HawkDove1D_table (payoffs s) = Inr T \<and>
                 (let Ar = A s ! (next_row s - 1); Pr = P s' ! (next_row s - 1);
                      l = (if c = 0 then cols s - 1 else c - 1);
                      rt = (if c = cols s - 1 then 0 else c + 1);
                      new = A s' ! next_row s ! c
                  in T (str (Ar ! l) @ str (Ar ! c) @ str (Ar ! rt)) = Some x \<and>
                     to_uint8 oor x = Inr (Pr ! c) \<and>
                     (if Pr ! c < Pr ! l then
                        (if Pr ! l < Pr ! rt then new = Ar ! rt
                         else if Pr ! l > Pr ! rt then new = Ar ! l
                         else new = Ar ! rt \<or> new = Ar ! l)
                      else if Pr ! c < Pr ! rt then new = Ar ! rt
                      else new = Ar ! c)))"
  proof (cases "HawkDove1D_step oor coin (s, n)")
    case (Inl a)
    obtain e s' n' where a: "a = (e, (s', n'))" by (cases a) auto
    from HawkDove1D_step_raised_untouched[OF assms(1-3) Inl[unfolded a]]
    show ?thesis unfolding Inl a by simp
  next
    case (Inr w)
    obtain s' n' where w: "w = (s', n')" by (cases w)
    from HawkDove1D_step_returned[OF assms(1-3) Inr[unfolded w]]
    obtain T pr where T: "HawkDove1D_table (payoffs s) = Inr T"
      and pr: "payoff_row T oor ?Ar = Inr pr"
      and P: "P s' ! (?r - 1) = pr"
      and a: "A s' ! ?r = update_row coin n pr ?Ar"
      and l: "length pr = cols s"
      and la: "length ?Ar = cols s"
      and b: "bits ?Ar"
      by blast
    have mem: "\<And>i. i < cols s \<Longrightarrow> ?Ar ! i = 0 \<or> ?Ar ! i = 1"
      using b la by (auto simp: bits_def)
    obtain x where x: "T (str (?Ar ! left_of (cols s) c) @ str (?Ar ! c) @ str (?Ar ! right_of (cols s) c)) = Some x"
      using covers_lookup[OF HawkDove1D_table_covers[OF T] mem mem mem, of "left_of (cols s) c" c "right_of (cols s) c"]
        left_of_less[OF assms(4)] right_of_less[OF assms(4)] assms(4) by blast
    have "payoff_of T oor ?Ar c = Inr (pr ! c)"
      using payoff_row_nth[OF pr, of c] assms(4) la by simp
    then have v: "to_uint8 oor x = Inr (pr ! c)"
      unfolding payoff_of_def la x by simp
    have nw: "A s' ! ?r ! c = pick (coin (n + draws_before pr c)) pr ?Ar c"
      using assms(4) l by (simp add: a update_row_def imitate_def)
    have "let Ar = ?Ar; Pr = P s' ! (?r - 1);
              l = (if c = 0 then cols s - 1 else c - 1);
              rt = (if c = cols s - 1 then 0 else c + 1);
              new = A s' ! ?r ! c
          in T (str (Ar ! l) @ str (Ar ! c) @ str (Ar ! rt)) = Some x \<and>
             to_uint8 oor x = Inr (Pr ! c) \<and>
             (if Pr ! c < Pr ! l then
                (if Pr ! l < Pr ! rt then new = Ar ! rt
                 else if Pr ! l > Pr ! rt then new = Ar ! l
                 else new = Ar ! rt \<or> new = Ar ! l)
              else if Pr ! c < Pr ! rt then new = Ar ! rt
              else new = Ar ! c)"
      unfolding P by (rule ring_cell[where T = T, OF l x v nw])
    then show ?thesis
      unfolding Inr w sum.case prod.case using T by blast
  qed
qed

theorem step_ring_neighbourhood_witness:
  "wf seeded \<and> 1 \<le> next_row seeded \<and> next_row seeded < rows seeded \<and> 0 < cols seeded \<and>
   HawkDove1D_step raising tails (seeded, 0) = Inr (stepped, 0) \<and>
   HawkDove1D_table (payoffs seeded) = Inr table_2_3 \<and>
   (\<exists>x. table_2_3 (str (A seeded ! 0 ! 6) @ str (A seeded ! 0 ! 0) @ str (A seeded ! 0 ! 1)) = Some x \<and>
      to_uint8 raising x = Inr (P stepped ! 0 ! 0))"
proof -
  have h: "1 \<le> next_row seeded" "next_row seeded < rows seeded" "0 < cols seeded"
    by (simp_all add: seeded_def)
  have e: "next_row seeded - 1 = 0" "(if (0::nat) = 0 then cols seeded - 1 else 0 - 1) = 6"
    "(if 0 = cols seeded - 1 then 0 else 0 + 1) = (1::nat)"
    by (simp_all add: seeded_def)
  have t: "HawkDove1D_table (payoffs seeded) = Inr table_2_3"
    by (simp add: seeded_def HawkDove1D_table_2_3)
  have st: "HawkDove1D_step raising tails (seeded, 0) = Inr (stepped, 0)"
    by (rule seeded_step)
  from step_ring_neighbourhood[OF wf_seeded h, where oor = raising and coin = tails and n = 0,
      unfolded Let_def e st sum.case prod.case t]
  have "\<exists>x. table_2_3 (str (A seeded ! 0 ! 6) @ str (A seeded ! 0 ! 0) @ str (A seeded ! 0 ! 1)) = Some x \<and>
      to_uint8 raising x = Inr (P stepped ! 0 ! 0)"
    by blast
  then show ?thesis using wf_seeded h st t by blast
qed

text \<open>
  \<^bold>\<open>Claim C4.\<close> A step at cursor \<open>r\<close>, \<open>1 \<le> r < rows\<close>, of a well-formed object either
  raises, and then has written nothing to \<open>A\<close>, or returns, and then: if in the payoff
  row \<open>r - 1\<close> just stored the payoff of column \<open>c\<close> is at least that of its left and that
  of its right neighbour, the cell written at row \<open>r\<close>, column \<open>c\<close> is the cell of row
  \<open>r - 1\<close>, column \<open>c\<close>, whatever the neighbours' strategies are. The step returns exactly
  when the table can be built and every payoff of row \<open>r - 1\<close> can be stored.
\<close>

theorem step_self_preservation:
  assumes "wf s" "1 \<le> next_row s" "next_row s < rows s" "c < cols s"
  shows "(case HawkDove1D_step oor coin (s, n) of
            Inl (e, (s', n')) \<Rightarrow> A s' = A s \<and> next_row s' = next_row s \<and> n' = n
          | Inr (s', n') \<Rightarrow>
              (P s' ! (next_row s - 1) ! left_of (cols s) c \<le> P s' ! (next_row s - 1) ! c \<and>
               P s' ! (next_row s - 1) ! right_of (cols s) c \<le> P s' ! (next_row s - 1) ! c \<longrightarrow>
               A s' ! next_row s ! c = A s ! (next_row s - 1) ! c)) \<and>
         ((\<exists>w. HawkDove1D_step oor coin (s, n) = Inr w) \<longleftrightarrow>
          (\<exists>T pr. HawkDove1D_table (payoffs s) = Inr T \<and>
             payoff_row T oor (A s ! (next_row s - 1)) = Inr pr))"
proof (rule conjI)
  show "(\<exists>w. HawkDove1D_step oor coin (s, n) = Inr w) \<longleftrightarrow>
          (\<exists>T pr. HawkDove1D_table (payoffs s) = Inr T \<and>
             payoff_row T oor (A s ! (next_row s - 1)) = Inr pr)"
    by (rule HawkDove1D_step_returns_iff[OF assms(1-3)])
next
  show "case HawkDove1D_step oor coin (s, n) of
            Inl (e, (s', n')) \<Rightarrow> A s' = A s \<and> next_row s' = next_row s \<and> n' = n
          | Inr (s', n') \<Rightarrow>
              (P s' ! (next_row s - 1) ! left_of (cols s) c \<le> P s' ! (next_row s - 1) ! c \<and>
               P s' ! (next_row s - 1) ! right_of (cols s) c \<le> P s' ! (next_row s - 1) ! c \<longrightarrow>
               A s' ! next_row s ! c = A s ! (next_row s - 1) ! c)"
  proof (cases "HawkDove1D_step oor coin (s, n)")
    case (Inl a)
    obtain e s' n' where a: "a = (e, (s', n'))" by (cases a) auto
    from HawkDove1D_step_raised_untouched[OF assms(1-3) Inl[unfolded a]]
    show ?thesis unfolding Inl a by simp
  next
    case (Inr w)
    obtain s' n' where w: "w = (s', n')" by (cases w)
    from step_cell_pick[OF assms Inr[unfolded w]]
    have l: "length (P s' ! (next_row s - 1)) = cols s"
      and p: "A s' ! next_row s ! c =
          pick (coin (n + draws_before (P s' ! (next_row s - 1)) c))
            (P s' ! (next_row s - 1)) (A s ! (next_row s - 1)) c"
      by blast+
    have "P s' ! (next_row s - 1) ! left_of (cols s) c \<le> P s' ! (next_row s - 1) ! c \<and>
          P s' ! (next_row s - 1) ! right_of (cols s) c \<le> P s' ! (next_row s - 1) ! c \<longrightarrow>
          A s' ! next_row s ! c = A s ! (next_row s - 1) ! c"
      unfolding p using l by (auto simp: pick_def Let_def)
    then show ?thesis
      unfolding Inr w sum.case prod.case .
  qed
qed

theorem step_self_preservation_witness:
  "wf seeded \<and> 1 \<le> next_row seeded \<and> next_row seeded < rows seeded \<and> 3 < cols seeded \<and>
   HawkDove1D_step raising tails (seeded, 0) = Inr (stepped, 0) \<and>
   P stepped ! 0 ! 2 \<le> P stepped ! 0 ! 3 \<and> P stepped ! 0 ! 4 \<le> P stepped ! 0 ! 3 \<and>
   A stepped ! 1 ! 3 = A seeded ! 0 ! 3"
proof -
  have h: "1 \<le> next_row seeded" "next_row seeded < rows seeded" "3 < cols seeded"
    by (simp_all add: seeded_def)
  have st: "HawkDove1D_step raising tails (seeded, 0) = Inr (stepped, 0)"
    by (rule seeded_step)
  from step_self_preservation[OF wf_seeded h, where oor = raising and coin = tails and n = 0,
      unfolded st sum.case prod.case]
  have "P stepped ! (next_row seeded - 1) ! left_of (cols seeded) 3
          \<le> P stepped ! (next_row seeded - 1) ! 3 \<and>
        P stepped ! (next_row seeded - 1) ! right_of (cols seeded) 3
          \<le> P stepped ! (next_row seeded - 1) ! 3 \<longrightarrow>
        A stepped ! next_row seeded ! 3 = A seeded ! (next_row seeded - 1) ! 3"
    by blast
  then have "A stepped ! 1 ! 3 = A seeded ! 0 ! 3"
    by (simp add: seeded_def stepped_def left_of_def right_of_def)
  moreover have "P stepped ! 0 ! 2 \<le> P stepped ! 0 ! 3" "P stepped ! 0 ! 4 \<le> P stepped ! 0 ! 3"
    by (simp_all add: stepped_def)
  ultimately show ?thesis
    using wf_seeded h st by simp
qed




text \<open>
  \<^bold>\<open>Claim C6.\<close> From the constructor, after any list of \<open>init_single\<close>, \<open>init_random\<close>,
  \<open>step\<close> and \<open>loop\<close> calls, whether they return or raise, every cell of \<open>A\<close> is 0 or 1: for
  \<open>HawkDove1D\<close>, \<open>StagHunt1D\<close> and \<open>PrisonersDilemma1D\<close>, any payoffs, any size, any random
  stream and any conversion of the values that \<open>uint8\<close> cannot hold.
\<close>

theorem grid_always_binary:
  "binary (A (fst (run (HawkDove1D_step oor coin) coin cs (init pay2 m copt, n)))) \<and>
   binary (A (fst (run (StagHunt1D_step oor coin) coin cs (init pay3 m copt, n)))) \<and>
   binary (A (fst (run (PrisonersDilemma1D_step oor coin) coin cs (init pay4 m copt, n))))"
  using run_binary[of "HawkDove1D_step oor coin" "(init pay2 m copt, n)" coin cs]
    run_binary[of "StagHunt1D_step oor coin" "(init pay3 m copt, n)" coin cs]
    run_binary[of "PrisonersDilemma1D_step oor coin" "(init pay4 m copt, n)" coin cs]
  by (simp add: init_binary HawkDove1D_step_binary StagHunt1D_step_binary
      PrisonersDilemma1D_step_binary)

theorem grid_always_binary_witness:
  "run (HawkDove1D_step raising tails) tails [Init_single, Step]
     (init (2, 3) 3 None, 0) = (stepped, 0) \<and>
   binary (A stepped) \<and>
   binary (A (fst (run (StagHunt1D_step raising tails) tails
     [Init_single, Step] (init (2, 3, 0) 3 None, 0)))) \<and>
   binary (A (fst (run (PrisonersDilemma1D_step raising tails) tails
     [Init_single, Step] (init (3, 2, 1, 0) 3 None, 0))))"
proof -
  have r: "run (HawkDove1D_step raising tails) tails [Init_single, Step]
     (init (2, 3) 3 None, 0) = (stepped, 0)"
    by (rule run_seeded_twice)
  from grid_always_binary[of raising tails "[Init_single, Step]" "(2, 3)" 3 None 0
      "(2, 3, 0)" "(3, 2, 1, 0)"]
  show ?thesis
    unfolding r by (simp add: r)
qed




text \<open>
  \<^bold>\<open>Claim C8.\<close> Let a step at cursor \<open>r\<close>, \<open>1 \<le> r < rows\<close>, of a well-formed object have
  returned a state whose payoff row \<open>r - 1\<close> has no column \<open>c\<close> with
  \<open>P[c] < P[left] = P[right]\<close>. Then under every random stream, from every position of it,
  the step returns that same state and leaves the position where it was: no draw is
  taken. A row in which the payoffs of left neighbour, cell and right neighbour differ at
  every column is such a row (\<open>no_ties_tie_free\<close>); with at least one column, no row
  that a step stores is of that stricter kind (\<open>stored_payoff_row_has_tie\<close>), so the
  property is stated for the rows on which the source takes no draw.
\<close>

theorem step_deterministic_without_ties:
  assumes "wf s" "1 \<le> next_row s" "next_row s < rows s"
    and "HawkDove1D_step oor coin0 (s, n0) = Inr (s0, m0)"
    and "tie_free (P s0 ! (next_row s - 1))"
  shows "\<forall>coin n. HawkDove1D_step oor coin (s, n) = Inr (s0, n)"
proof (intro allI)
  fix coin n
  let ?r = "next_row s"
  from HawkDove1D_step_returned[OF assms(1-4)]
  obtain T pr where T: "HawkDove1D_table (payoffs s) = Inr T"
    and pr: "payoff_row T oor (A s ! (?r - 1)) = Inr pr"
    and P: "P s0 ! (?r - 1) = pr"
    and len: "length pr = cols s"
    by blast
  have s0: "s0 = s\<lparr>A := (A s)[?r := update_row coin0 n0 pr (A s ! (?r - 1))],
               P := (P s)[?r - 1 := pr], next_row := ?r + 1\<rparr>"
    using assms(4) unfolding HawkDove1D_step_spec[OF assms(1-3) T pr] by simp
  have tf: "tie_free pr" using assms(5) P by simp
  have d: "draws_before pr (cols s) = 0"
    using draws_before_tie_free[OF tf, of "cols s"] len by simp
  have u: "update_row coin n pr (A s ! (?r - 1)) = update_row coin0 n0 pr (A s ! (?r - 1))"
    by (rule update_row_tie_free[OF tf])
  show "HawkDove1D_step oor coin (s, n) = Inr (s0, n)"
    unfolding HawkDove1D_step_spec[OF assms(1-3) T pr] d u by (simp add: s0)
qed

theorem step_deterministic_without_ties_witness:
  "wf seeded \<and> 1 \<le> next_row seeded \<and> next_row seeded < rows seeded \<and>
   HawkDove1D_step raising tails (seeded, 0) = Inr (stepped, 0) \<and>
   tie_free (P stepped ! (next_row seeded - 1)) \<and>
   HawkDove1D_step raising heads (seeded, 5) = Inr (stepped, 5)"
proof -
  have h: "1 \<le> next_row seeded" "next_row seeded < rows seeded"
    by (simp_all add: seeded_def)
  have st: "HawkDove1D_step raising tails (seeded, 0) = Inr (stepped, 0)"
    by (rule seeded_step)
  have "P stepped ! (next_row seeded - 1) = [2, 2, 1, 4, 1, 2, 2]"
    by (simp add: seeded_def stepped_def)
  moreover have "tie_free [2, 2, 1, 4, 1, 2, 2]"
    by code_simp
  ultimately have tf: "tie_free (P stepped ! (next_row seeded - 1))" by simp
  from step_deterministic_without_ties[OF wf_seeded h st tf]
  have "HawkDove1D_step raising heads (seeded, 5) = Inr (stepped, 5)" by blast
  then show ?thesis using wf_seeded h st tf by blast
qed

text \<open>
  \<^bold>\<open>Claim C9.\<close> When the payoffs of a \<open>HawkDove1D\<close>, a \<open>StagHunt1D\<close> and a
  \<open>PrisonersDilemma1D\<close> object give the same table and the objects are equal in every
  other field, their steps under the same random stream give the same outcome: the same
  exception or none, the same two arrays, the same cursor, the same number of draws.
\<close>

theorem steps_same_engine:
  assumes "HawkDove1D_table (payoffs h) = Inr (StagHunt1D_table (payoffs g))"
    and "StagHunt1D_table (payoffs g) = PrisonersDilemma1D_table (payoffs d)"
    and "erase h = erase g" and "erase g = erase d"
  shows "erase_outcome (HawkDove1D_step oor coin (h, n)) =
           erase_outcome (StagHunt1D_step oor coin (g, n)) \<and>
         erase_outcome (StagHunt1D_step oor coin (g, n)) =
           erase_outcome (PrisonersDilemma1D_step oor coin (d, n))"
  unfolding HawkDove1D_step_engine StagHunt1D_step_engine PrisonersDilemma1D_step_engine
    fst_conv assms(1) sum.case
  using assms(2) engine_erase[OF assms(3)] engine_erase[OF assms(4)] by simp

theorem steps_same_engine_witness:
  "HawkDove1D_table (payoffs hawk_dove_seeded) = Inr (StagHunt1D_table (payoffs stag_hunt_seeded)) \<and>
   StagHunt1D_table (payoffs stag_hunt_seeded) = PrisonersDilemma1D_table (payoffs prisoners_seeded) \<and>
   erase hawk_dove_seeded = erase stag_hunt_seeded \<and>
   erase stag_hunt_seeded = erase prisoners_seeded \<and>
   erase_outcome (HawkDove1D_step raising tails (hawk_dove_seeded, 0)) =
     erase_outcome (StagHunt1D_step raising tails (stag_hunt_seeded, 0)) \<and>
   erase_outcome (StagHunt1D_step raising tails (stag_hunt_seeded, 0)) =
     erase_outcome (PrisonersDilemma1D_step raising tails (prisoners_seeded, 0))"
proof -
  have 1: "HawkDove1D_table (payoffs hawk_dove_seeded) = Inr (StagHunt1D_table (payoffs stag_hunt_seeded))"
    by (simp add: hawk_dove_seeded_def stag_hunt_seeded_def HawkDove1D_table_2_m2)
  have 2: "StagHunt1D_table (payoffs stag_hunt_seeded) = PrisonersDilemma1D_table (payoffs prisoners_seeded)"
    by (simp add: prisoners_seeded_def stag_hunt_seeded_def PrisonersDilemma1D_table_def StagHunt1D_table_def)
  have 3: "erase hawk_dove_seeded = erase stag_hunt_seeded"
    by (simp add: erase_def hawk_dove_seeded_def seeded_def stag_hunt_seeded_def)
  have 4: "erase stag_hunt_seeded = erase prisoners_seeded"
    by (simp add: erase_def prisoners_seeded_def stag_hunt_seeded_def)
  from steps_same_engine[OF 1 2 3 4, of raising tails 0] 1 2 3 4
  show ?thesis by blast
qed




end
